theory Spec2Isabelle
  imports Main "HOL-Library.Word"
begin

unbundle bit_operations_syntax

section \<open>Outcomes of a call\<close>

text \<open>
  The library is a C++ header (\<^verbatim>\<open>BinaryText.hpp\<close>).  A call either returns, throws one of the
  library's error classes (or lets \<^verbatim>\<open>std::bad_alloc\<close> escape), reaches
  \<^verbatim>\<open>UnreachableTerminate\<close> (which prints and calls \<^verbatim>\<open>std::terminate\<close>), or reads
  outside the string it was given, which C++ leaves undefined.  All four are values here.
\<close>

datatype ByteBuffer_Error_Type =
    EMPTY_BUFFER_ERROR
  | INVALID_ARGUMENTS_ERROR
  | OPEN_FILE_ERROR
  | READ_FROM_FILE_ERROR
  | WRITE_TO_FILE_ERROR
  | OUT_OF_RANGE_ERROR
  | MAXIMUM_SIZE_LIMIT_ERROR
  | ALLOCATION_ERROR

datatype Base16_Error_Type =
    Base16_INTERNAL_STRING_RESERVE_ERROR
  | Base16_INVALID_CASE_ERROR
  | Base16_STRING_PARSE_ERROR

datatype Base32_Error_Type =
    Base32_INTERNAL_STRING_RESERVE_ERROR
  | Base32_STRING_PARSE_ERROR

datatype Base64_Error_Type =
    Base64_INTERNAL_STRING_RESERVE_ERROR
  | Base64_STRING_PARSE_ERROR

datatype Ascii85_Error_Type =
    Ascii85_INTERNAL_STRING_RESERVE_ERROR
  | Ascii85_STRING_PARSE_ERROR

datatype exn =
    ByteBuffer_Error ByteBuffer_Error_Type
  | Base16_Error Base16_Error_Type
  | Base32_Error Base32_Error_Type
  | Base64_Error Base64_Error_Type
  | Ascii85_Error Ascii85_Error_Type
  | std_bad_alloc

datatype 'a outcome =
    Returns 'a
  | Throws exn
  | Terminated
  | Undefined_Read

type_synonym byte = "8 word"

text \<open>
  \<^verbatim>\<open>static_cast<char>(static_cast<unsigned char>(b.to_ullong()))\<close>: the low eight bits of a
  bitset, as a character.
\<close>

definition to_char :: "'a::len word \<Rightarrow> char" where
  "to_char w = char_of (unat (ucast w :: byte))"

text \<open>\<^verbatim>\<open>std::bitset<charSize>(c).to_ullong()\<close>: the eight bits of a character as a number.\<close>

definition char_bits :: "char \<Rightarrow> 'a::len word" where
  "char_bits c = of_nat (of_char c)"

section \<open>Base16: \<^verbatim>\<open>DecodeStringToString\<close>\<close>

datatype Case = LOWERCASE | MIXED | UPPERCASE

text \<open>The three inner \<^verbatim>\<open>switch(*jter)\<close> tables; \<open>None\<close> is the \<^verbatim>\<open>default\<close> branch.\<close>

definition Base16_digits :: "(char \<times> byte) list" where
  "Base16_digits =
    [(CHR ''0'', 0), (CHR ''1'', 1), (CHR ''2'', 2), (CHR ''3'', 3), (CHR ''4'', 4),
     (CHR ''5'', 5), (CHR ''6'', 6), (CHR ''7'', 7), (CHR ''8'', 8), (CHR ''9'', 9)]"

definition Base16_upper :: "(char \<times> byte) list" where
  "Base16_upper =
    [(CHR ''A'', 10), (CHR ''B'', 11), (CHR ''C'', 12), (CHR ''D'', 13), (CHR ''E'', 14),
     (CHR ''F'', 15)]"

definition Base16_lower :: "(char \<times> byte) list" where
  "Base16_lower =
    [(CHR ''a'', 10), (CHR ''b'', 11), (CHR ''c'', 12), (CHR ''d'', 13), (CHR ''e'', 14),
     (CHR ''f'', 15)]"

fun Base16_value :: "Case \<Rightarrow> char \<Rightarrow> byte option" where
  "Base16_value MIXED c = map_of (Base16_digits @ Base16_upper @ Base16_lower) c"
| "Base16_value UPPERCASE c = map_of (Base16_digits @ Base16_upper) c"
| "Base16_value LOWERCASE c = map_of (Base16_digits @ Base16_lower) c"

definition is_blank :: "char \<Rightarrow> bool" where
  "is_blank c \<longleftrightarrow> c = CHR '' '' \<or> c = CHR 0x0A"

text \<open>
  The inner \<^verbatim>\<open>for(jter(iter); jter != cend; ++jter)\<close> loop.  Iterators are positions in the
  string.  The loop can advance the outer iterator \<open>iter\<close> too, so it is threaded through;
  the result is \<open>iter\<close>, \<open>counter\<close> and \<open>bitset\<close> when the loop is left.
\<close>

function Base16_group ::
  "Case \<Rightarrow> string \<Rightarrow> nat \<Rightarrow> nat \<Rightarrow> nat \<Rightarrow> byte \<Rightarrow> (nat \<times> nat \<times> byte) outcome" where
  "Base16_group kase s iter jter counter bitset =
    (if jter < length s then
       (if is_blank (s ! jter) then
          (if jter + 1 = length s then Returns (iter, counter, bitset)
           else Base16_group kase s (iter + 1) (jter + 1) counter bitset)
        else
          (case Base16_value kase (s ! jter) of
             None \<Rightarrow> Throws (Base16_Error Base16_STRING_PARSE_ERROR)
           | Some v \<Rightarrow>
               (if jter + 1 = length s \<or> jter + 1 = iter + 2
                then Returns (jter, counter + 1, push_bit 4 bitset OR v)
                else Base16_group kase s iter (jter + 1) (counter + 1) (push_bit 4 bitset OR v))))
     else Returns (iter, counter, bitset))"
  by pat_completeness auto
termination
  by (relation "measure (\<lambda>(kase, s, iter, jter, counter, bitset). length s - jter)") auto

declare Base16_group.simps [simp del]

lemma Base16_group_iter_mono:
  "Base16_group kase s iter jter counter bitset = Returns (iter', counter', bitset')
   \<Longrightarrow> iter \<le> jter \<Longrightarrow> iter \<le> iter'"
proof (induction kase s iter jter counter bitset rule: Base16_group.induct)
  case (1 kase s iter jter counter bitset)
  note eq = "1.prems"(1) [unfolded Base16_group.simps [of kase s iter jter counter bitset]]
  show ?case
  proof (cases "jter < length s")
    case False
    with eq show ?thesis by simp
  next
    case inside: True
    show ?thesis
    proof (cases "is_blank (s ! jter)")
      case True
      with inside eq "1.IH"(1) "1.prems"(2) show ?thesis
        by (cases "jter + 1 = length s") auto
    next
      case False
      with inside eq "1.IH"(2) "1.prems"(2) show ?thesis
        by (cases "Base16_value kase (s ! jter)") (auto split: if_splits)
    qed
  qed
qed

text \<open>
  The outer \<^verbatim>\<open>for(iter = cbegin; iter != cend; ++iter)\<close> loop with the
  \<^verbatim>\<open>switch(counter)\<close> that follows the inner loop and the \<^verbatim>\<open>append\<close>.
\<close>

function Base16_loop :: "Case \<Rightarrow> string \<Rightarrow> nat \<Rightarrow> string \<Rightarrow> string outcome" where
  "Base16_loop kase s iter decodedString =
    (if iter < length s then
       (if is_blank (s ! iter) then Base16_loop kase s (iter + 1) decodedString
        else
          (case Base16_group kase s iter iter 0 0 of
             Returns (iter', counter, bitset) \<Rightarrow>
               (if counter = 2 then
                  Base16_loop kase s (iter' + 1) (decodedString @ [to_char bitset])
                else if counter = 1 then
                  Base16_loop kase s (iter' + 1) (decodedString @ [to_char (push_bit 4 bitset)])
                else Terminated)
           | Throws e \<Rightarrow> Throws e
           | Terminated \<Rightarrow> Terminated
           | Undefined_Read \<Rightarrow> Undefined_Read))
     else Returns decodedString)"
  by pat_completeness auto
termination
proof (relation "measure (\<lambda>(kase, s, iter, decodedString). length s - iter)", goal_cases)
  case 1
  show ?case by simp
next
  case (2 kase s iter decodedString)
  then show ?case by simp
next
  case (3 kase s iter decodedString x1 iter' y counter bitset)
  then have "iter \<le> iter'"
    using Base16_group_iter_mono [of kase s iter iter 0 0 iter' counter bitset] by simp
  with 3 show ?case by simp
next
  case (4 kase s iter decodedString x1 iter' y counter bitset)
  then have "iter \<le> iter'"
    using Base16_group_iter_mono [of kase s iter iter 0 0 iter' counter bitset] by simp
  with 4 show ?case by simp
qed

declare Base16_loop.simps [simp del]

text \<open>
  \<^verbatim>\<open>Base16::DecodeStringToString\<close>.  The \<^verbatim>\<open>reserve\<close> of half the input's size cannot
  exceed \<^verbatim>\<open>max_size\<close> (the input itself is a string), so its \<^verbatim>\<open>length_error\<close> branch is
  not a branch of the model.
\<close>

definition Base16_DecodeStringToString :: "string \<Rightarrow> Case \<Rightarrow> string outcome" where
  "Base16_DecodeStringToString encodedString kase = Base16_loop kase encodedString 0 []"

subsection \<open>What the specification says Base16 decoding is\<close>

text \<open>
  Section 4.2 of the specification: two hex digits per output byte, most significant nibble
  first; blanks (space and newline) are ignored; a final unpaired digit is shifted left four
  bits; any other character fails with the parse error.  \<open>Base16_decode_spec\<close> follows these
  words and not the code: drop the blanks, look every remaining character up in the alphabet of
  the case policy, fail if one is missing, pair the values up.
\<close>

fun Base16_pairs :: "byte list \<Rightarrow> byte list" where
  "Base16_pairs [] = []"
| "Base16_pairs [d] = [push_bit 4 d]"
| "Base16_pairs (d # e # ds) = (push_bit 4 d OR e) # Base16_pairs ds"

definition Base16_decode_spec :: "string \<Rightarrow> Case \<Rightarrow> string outcome" where
  "Base16_decode_spec s kase =
    (case those (map (Base16_value kase) (filter (\<lambda>c. \<not> is_blank c) s)) of
       None \<Rightarrow> Throws (Base16_Error Base16_STRING_PARSE_ERROR)
     | Some ds \<Rightarrow> Returns (map to_char (Base16_pairs ds)))"

subsection \<open>A state machine between the code and the specification\<close>

text \<open>
  \<open>Base16_first\<close> waits for the first digit of a byte, \<open>Base16_second\<close> holds one digit and
  waits for the second.  \<open>Base16_flush\<close> is the part of the outer loop's body that follows
  the inner loop.  They serve the proofs only.
\<close>

fun Base16_first :: "Case \<Rightarrow> string \<Rightarrow> string \<Rightarrow> string outcome"
  and Base16_second :: "Case \<Rightarrow> byte \<Rightarrow> string \<Rightarrow> string \<Rightarrow> string outcome" where
  "Base16_first kase [] out = Returns out"
| "Base16_first kase (c # cs) out =
    (if is_blank c then Base16_first kase cs out
     else (case Base16_value kase c of
             None \<Rightarrow> Throws (Base16_Error Base16_STRING_PARSE_ERROR)
           | Some d \<Rightarrow> Base16_second kase d cs out))"
| "Base16_second kase d [] out = Returns (out @ [to_char (push_bit 4 d)])"
| "Base16_second kase d (c # cs) out =
    (if is_blank c then Base16_second kase d cs out
     else (case Base16_value kase c of
             None \<Rightarrow> Throws (Base16_Error Base16_STRING_PARSE_ERROR)
           | Some e \<Rightarrow> Base16_first kase cs (out @ [to_char (push_bit 4 d OR e)])))"

definition Base16_flush :: "Case \<Rightarrow> string \<Rightarrow> string \<Rightarrow> (nat \<times> nat \<times> byte) outcome \<Rightarrow> string outcome" where
  "Base16_flush kase s decodedString r =
     (case r of
             Returns (iter', counter, bitset) \<Rightarrow>
               (if counter = 2 then
                  Base16_loop kase s (iter' + 1) (decodedString @ [to_char bitset])
                else if counter = 1 then
                  Base16_loop kase s (iter' + 1) (decodedString @ [to_char (push_bit 4 bitset)])
                else Terminated)
           | Throws e \<Rightarrow> Throws e
           | Terminated \<Rightarrow> Terminated
           | Undefined_Read \<Rightarrow> Undefined_Read)"

subsection \<open>The inner loop consumes one or two digits\<close>

lemma Base16_group_outcome:
  "(\<exists>r. Base16_group kase s iter jter counter bitset = Returns r) \<or>
   Base16_group kase s iter jter counter bitset = Throws (Base16_Error Base16_STRING_PARSE_ERROR)"
proof (induction kase s iter jter counter bitset rule: Base16_group.induct)
  case (1 kase s iter jter counter bitset)
  show ?case
    using "1.IH"
    by (subst (1 2) Base16_group.simps) (auto split: option.splits)
qed

lemma Base16_group_counter:
  "Base16_group kase s iter jter counter bitset = Returns (iter', counter', bitset')
   \<Longrightarrow> (jter = iter \<and> counter = 0 \<and> jter < length s \<and> \<not> is_blank (s ! jter))
        \<or> (jter = iter + 1 \<and> counter = 1)
   \<Longrightarrow> counter' = 1 \<or> counter' = 2"
proof (induction kase s iter jter counter bitset rule: Base16_group.induct)
  case (1 kase s iter jter counter bitset)
  note eq = "1.prems"(1) [unfolded Base16_group.simps [of kase s iter jter counter bitset]]
  show ?case
  proof (cases "jter < length s")
    case False
    with eq "1.prems"(2) show ?thesis by auto
  next
    case inside: True
    show ?thesis
    proof (cases "is_blank (s ! jter)")
      case True
      with inside eq "1.IH"(1) "1.prems"(2) show ?thesis
        by (cases "jter + 1 = length s") auto
    next
      case False
      with inside eq "1.IH"(2) "1.prems"(2) show ?thesis
        by (cases "Base16_value kase (s ! jter)") (auto split: if_splits)
    qed
  qed
qed

lemma Base16_loop_outcome:
  "(\<exists>out. Base16_loop kase s iter decodedString = Returns out) \<or>
   Base16_loop kase s iter decodedString = Throws (Base16_Error Base16_STRING_PARSE_ERROR)"
proof (induction kase s iter decodedString rule: Base16_loop.induct)
  case (1 kase s iter decodedString)
  show ?case
  proof (cases "iter < length s")
    case False
    then show ?thesis by (subst (1 2) Base16_loop.simps) simp
  next
    case inside: True
    show ?thesis
    proof (cases "is_blank (s ! iter)")
      case True
      with inside "1.IH"(1) show ?thesis by (subst (1 2) Base16_loop.simps) simp
    next
      case False
      from Base16_group_outcome [of kase s iter iter 0 0] show ?thesis
      proof
        assume "\<exists>r. Base16_group kase s iter iter 0 0 = Returns r"
        then obtain iter' counter bitset where
          r: "Base16_group kase s iter iter 0 0 = Returns (iter', counter, bitset)"
          by (metis prod_cases3)
        from Base16_group_counter [OF r] inside False have c: "counter = 1 \<or> counter = 2" by simp
        from c show ?thesis
        proof
          assume "counter = 1"
          with r inside False "1.IH"(3) [OF inside False r refl refl] show ?thesis
            by (subst (1 2) Base16_loop.simps) simp
        next
          assume "counter = 2"
          with r inside False "1.IH"(2) [OF inside False r refl refl] show ?thesis
            by (subst (1 2) Base16_loop.simps) simp
        qed
      next
        assume "Base16_group kase s iter iter 0 0 = Throws (Base16_Error Base16_STRING_PARSE_ERROR)"
        with inside False show ?thesis by (subst (1 2) Base16_loop.simps) simp
      qed
    qed
  qed
qed

text \<open>
  C10: for every input string and every case policy \<^verbatim>\<open>Base16::DecodeStringToString\<close> never
  reaches \<^verbatim>\<open>UnreachableTerminate\<close>: it returns or throws a Base16 error, and whenever the
  outer loop starts a group (at a position inside the string that holds no blank) and the
  inner loop comes back, the number of hex digits counted is 1 or 2, so the \<^verbatim>\<open>default\<close>
  branch of \<^verbatim>\<open>switch(counter)\<close> is never taken.
\<close>

theorem Base16_decode_never_terminates:
  "((\<exists>out. Base16_DecodeStringToString s kase = Returns out) \<or>
    (\<exists>t. Base16_DecodeStringToString s kase = Throws (Base16_Error t))) \<and>
   (iter < length s \<and> \<not> is_blank (s ! iter) \<and>
    Base16_group kase s iter iter 0 0 = Returns (iter', counter, bitset)
    \<longrightarrow> counter = 1 \<or> counter = 2)"
proof
  from Base16_loop_outcome [of kase s 0 "[]"]
  show "(\<exists>out. Base16_DecodeStringToString s kase = Returns out) \<or>
        (\<exists>t. Base16_DecodeStringToString s kase = Throws (Base16_Error t))"
    unfolding Base16_DecodeStringToString_def by blast
next
  show "iter < length s \<and> \<not> is_blank (s ! iter) \<and>
      Base16_group kase s iter iter 0 0 = Returns (iter', counter, bitset)
      \<longrightarrow> counter = 1 \<or> counter = 2"
    using Base16_group_counter [of kase s iter iter 0 0 iter' counter bitset] by blast
qed

theorem Base16_decode_never_terminates_witness:
  "0 < length ''4 5'' \<and> \<not> is_blank (''4 5'' ! 0) \<and>
   Base16_group MIXED ''4 5'' 0 0 0 0 = Returns (2, 2, 0x45) \<and>
   Base16_DecodeStringToString ''4 5'' MIXED = Returns ''E''"
proof -
  have run: "Base16_DecodeStringToString ''4 5'' MIXED = Returns ''E''"
    by code_simp
  have group: "0 < length ''4 5'' \<and> \<not> is_blank (''4 5'' ! 0) \<and>
      Base16_group MIXED ''4 5'' 0 0 0 0 = Returns (2, 2, 0x45)"
    by code_simp
  from Base16_decode_never_terminates [of "''4 5''" MIXED 0 2 2 "0x45"] group
  have "(2::nat) = 1 \<or> (2::nat) = 2" by blast
  with run group show ?thesis by blast
qed

subsection \<open>The code decodes as the specification says\<close>

lemma Base16_loop_unfold:
  "Base16_loop kase s iter out =
    (if iter < length s then
       (if is_blank (s ! iter) then Base16_loop kase s (iter + 1) out
        else Base16_flush kase s out (Base16_group kase s iter iter 0 0))
     else Returns out)"
  by (subst Base16_loop.simps) (simp add: Base16_flush_def)

lemma Base16_loop_end: "length s \<le> iter \<Longrightarrow> Base16_loop kase s iter out = Returns out"
  by (simp add: Base16_loop_unfold)

lemma Base16_second_half:
  assumes later: "\<And>i out'. jter0 \<le> i \<Longrightarrow>
            Base16_loop kase s (i + 1) out' = Base16_first kase (drop (i + 1) s) out'"
  shows "jter = iter + 1 \<Longrightarrow> jter \<le> length s \<Longrightarrow> jter0 \<le> jter \<Longrightarrow>
         Base16_flush kase s out (Base16_group kase s iter jter 1 d) =
         Base16_second kase d (drop jter s) out"
proof (induction "length s - jter" arbitrary: iter jter rule: less_induct)
  case less
  show ?case
  proof (cases "jter < length s")
    case False
    with less.prems have "jter = length s" by simp
    with less.prems show ?thesis
      by (subst Base16_group.simps) (simp add: Base16_flush_def Base16_loop_end)
  next
    case inside: True
    then have dr: "drop jter s = s ! jter # drop (jter + 1) s"
      by (simp add: Cons_nth_drop_Suc)
    show ?thesis
    proof (cases "is_blank (s ! jter)")
      case blank: True
      show ?thesis
      proof (cases "jter + 1 = length s")
        case True
        then have "Base16_group kase s iter jter 1 d = Returns (iter, 1, d)"
          using inside blank by (subst Base16_group.simps) simp
        moreover have "Base16_loop kase s (iter + 1) out' = Returns out'" for out'
          using True inside blank less.prems(1)
          by (subst Base16_loop_unfold) (simp add: Base16_loop_end)
        moreover have "Base16_second kase d (drop jter s) out = Returns (out @ [to_char (push_bit 4 d)])"
          using True blank by (simp add: dr)
        ultimately show ?thesis by (simp add: Base16_flush_def)
      next
        case False
        with inside have "length s - (jter + 1) < length s - jter" by simp
        from less.hyps [OF this, of "iter + 1"] less.prems inside False
        have "Base16_flush kase s out (Base16_group kase s (iter + 1) (jter + 1) 1 d) =
              Base16_second kase d (drop (jter + 1) s) out" by simp
        moreover have "Base16_group kase s iter jter 1 d = Base16_group kase s (iter + 1) (jter + 1) 1 d"
          using inside blank False by (subst Base16_group.simps) simp
        moreover have "Base16_second kase d (drop jter s) out = Base16_second kase d (drop (jter + 1) s) out"
          using blank by (simp add: dr)
        ultimately show ?thesis by simp
      qed
    next
      case False
      show ?thesis
      proof (cases "Base16_value kase (s ! jter)")
        case None
        have "Base16_group kase s iter jter 1 d = Throws (Base16_Error Base16_STRING_PARSE_ERROR)"
          using inside False None by (subst Base16_group.simps) simp
        moreover have "Base16_second kase d (drop jter s) out = Throws (Base16_Error Base16_STRING_PARSE_ERROR)"
          using False None by (simp add: dr)
        ultimately show ?thesis by (simp add: Base16_flush_def)
      next
        case (Some e)
        have "Base16_group kase s iter jter 1 d = Returns (jter, 2, push_bit 4 d OR e)"
          using inside False Some less.prems(1) by (subst Base16_group.simps) simp
        moreover have "Base16_second kase d (drop jter s) out =
            Base16_first kase (drop (jter + 1) s) (out @ [to_char (push_bit 4 d OR e)])"
          using False Some by (simp add: dr)
        ultimately show ?thesis
          using later [OF less.prems(3)] by (simp add: Base16_flush_def)
      qed
    qed
  qed
qed

lemma Base16_loop_first:
  "Base16_loop kase s iter out = Base16_first kase (drop iter s) out"
proof (induction "length s - iter" arbitrary: iter out rule: less_induct)
  case less
  show ?case
  proof (cases "iter < length s")
    case False
    then show ?thesis by (simp add: Base16_loop_unfold)
  next
    case inside: True
    then have dr: "drop iter s = s ! iter # drop (iter + 1) s"
      by (simp add: Cons_nth_drop_Suc)
    have later: "Base16_loop kase s (i + 1) out' = Base16_first kase (drop (i + 1) s) out'"
      if "iter \<le> i" for i out'
    proof -
      from that inside have "length s - (i + 1) < length s - iter" by simp
      then show ?thesis by (rule less.hyps)
    qed
    show ?thesis
    proof (cases "is_blank (s ! iter)")
      case True
      with inside later [of iter] show ?thesis by (simp add: Base16_loop_unfold dr)
    next
      case False
      show ?thesis
      proof (cases "Base16_value kase (s ! iter)")
        case None
        with inside False show ?thesis
          by (simp add: Base16_loop_unfold dr Base16_group.simps [of kase s iter iter] Base16_flush_def)
      next
        case (Some d)
        show ?thesis
        proof (cases "iter + 1 = length s")
          case True
          with inside False Some show ?thesis
            by (simp add: Base16_loop_unfold [of kase s iter] dr Base16_group.simps [of kase s iter iter]
                Base16_flush_def Base16_loop_end)
        next
          case False
          with inside have le: "iter + 1 \<le> length s" by simp
          from Base16_second_half [of iter kase s "iter + 1" iter out d, OF later refl le]
          have "Base16_flush kase s out (Base16_group kase s iter (iter + 1) 1 d) =
                Base16_second kase d (drop (iter + 1) s) out" by simp
          with inside \<open>\<not> is_blank (s ! iter)\<close> Some False show ?thesis
            by (simp add: Base16_loop_unfold [of kase s iter] dr Base16_group.simps [of kase s iter iter])
        qed
      qed
    qed
  qed
qed

lemma Base16_first_second_spec:
  "Base16_first kase s out =
     (case those (map (Base16_value kase) (filter (\<lambda>c. \<not> is_blank c) s)) of
        None \<Rightarrow> Throws (Base16_Error Base16_STRING_PARSE_ERROR)
      | Some ds \<Rightarrow> Returns (out @ map to_char (Base16_pairs ds)))"
  "Base16_second kase d s out =
     (case those (map (Base16_value kase) (filter (\<lambda>c. \<not> is_blank c) s)) of
        None \<Rightarrow> Throws (Base16_Error Base16_STRING_PARSE_ERROR)
      | Some ds \<Rightarrow> Returns (out @ map to_char (Base16_pairs (d # ds))))"
  by (induction kase s out and kase d s out rule: Base16_first_Base16_second.induct)
     (auto split: option.splits)

text \<open>
  C6: Base16 decoding ignores space and newline characters between hex digits; a final
  unpaired digit becomes the byte with that digit as its high nibble and a zero low nibble;
  any character that is neither a blank nor in the alphabet raises the parse error.  Stated
  as: the code computes exactly what \<open>Base16_decode_spec\<close>, written from these words,
  computes, for every input and every case policy.
\<close>

theorem Base16_decode_refines_spec:
  "Base16_DecodeStringToString s kase = Base16_decode_spec s kase"
  by (simp add: Base16_DecodeStringToString_def Base16_decode_spec_def Base16_loop_first
      Base16_first_second_spec split: option.splits)

section \<open>Base64: \<^verbatim>\<open>DecodeStringToString\<close>\<close>

text \<open>
  The 64 value cases of \<^verbatim>\<open>switch(*jter)\<close> in the order of the source (\<^verbatim>\<open>'A'\<close> is
  \<^verbatim>\<open>0B000000\<close>, \<^verbatim>\<open>'/'\<close> is \<^verbatim>\<open>0B111111\<close>): the value of a character is its position.
\<close>

definition Base64_alphabet :: string where
  "Base64_alphabet = ''ABCDEFGHIJKLMNOPQRSTUVWXYZabcdefghijklmnopqrstuvwxyz0123456789+/''"

definition Base64_value :: "char \<Rightarrow> 24 word option" where
  "Base64_value c =
    map_option of_nat (map_of (zip Base64_alphabet [0 ..< length Base64_alphabet]) c)"

text \<open>
  One round of the inner loop's body after \<^verbatim>\<open>loopCounter += 1\<close> and the shift: the
  \<^verbatim>\<open>paddingCounter > 0 and *jter != '='\<close> test, then the \<^verbatim>\<open>switch\<close> (a value case, the
  \<^verbatim>\<open>'='\<close> case, \<^verbatim>\<open>default\<close>).  The argument \<open>bitset\<close> is already shifted.
\<close>

definition Base64_symbol :: "nat \<Rightarrow> 24 word \<Rightarrow> char \<Rightarrow> (nat \<times> 24 word) outcome" where
  "Base64_symbol paddingCounter bitset c =
    (if paddingCounter > 0 \<and> c \<noteq> CHR ''='' then Throws (Base64_Error Base64_STRING_PARSE_ERROR)
     else
       (case Base64_value c of
          Some v \<Rightarrow> Returns (paddingCounter, bitset OR v)
        | None \<Rightarrow>
            (if c = CHR ''='' then Returns (paddingCounter + 1, bitset)
             else Throws (Base64_Error Base64_STRING_PARSE_ERROR))))"

text \<open>
  The inner loop \<^verbatim>\<open>for(jter(iter); jter != cend; ++jter)\<close>; it leaves with \<^verbatim>\<open>iter = jter\<close>
  at the end of the string or after the fourth symbol.  The result is \<open>iter\<close>,
  \<open>paddingCounter\<close>, \<open>loopCounter\<close> and \<open>bitset\<close>.
\<close>

function Base64_group ::
  "string \<Rightarrow> nat \<Rightarrow> nat \<Rightarrow> nat \<Rightarrow> nat \<Rightarrow> 24 word \<Rightarrow> (nat \<times> nat \<times> nat \<times> 24 word) outcome" where
  "Base64_group s iter jter paddingCounter loopCounter bitset =
    (if jter < length s then
       (case Base64_symbol paddingCounter (push_bit 6 bitset) (s ! jter) of
          Returns (paddingCounter', bitset') \<Rightarrow>
            (if jter + 1 = length s \<or> jter + 1 = iter + 4
             then Returns (jter, paddingCounter', loopCounter + 1, bitset')
             else Base64_group s iter (jter + 1) paddingCounter' (loopCounter + 1) bitset')
        | Throws e \<Rightarrow> Throws e
        | Terminated \<Rightarrow> Terminated
        | Undefined_Read \<Rightarrow> Undefined_Read)
     else Returns (iter, paddingCounter, loopCounter, bitset))"
  by pat_completeness auto
termination
  by (relation "measure (\<lambda>(s, iter, jter, paddingCounter, loopCounter, bitset). length s - jter)")
     auto

declare Base64_group.simps [simp del]

text \<open>\<^verbatim>\<open>switch(loopCounter)\<close>: a short final group gets its missing padding counted.\<close>

definition Base64_tail :: "nat \<Rightarrow> nat \<Rightarrow> 24 word \<Rightarrow> (nat \<times> 24 word) outcome" where
  "Base64_tail loopCounter paddingCounter bitset =
    (if loopCounter = 4 then Returns (paddingCounter, bitset)
     else if loopCounter = 3 then
       (if paddingCounter = 1 then Returns (2, push_bit 6 bitset)
        else if paddingCounter = 0 then Returns (1, push_bit 6 bitset)
        else Throws (Base64_Error Base64_STRING_PARSE_ERROR))
     else if loopCounter = 2 then
       (if paddingCounter = 0 then Returns (2, push_bit 12 bitset)
        else Throws (Base64_Error Base64_STRING_PARSE_ERROR))
     else if loopCounter = 1 then Throws (Base64_Error Base64_STRING_PARSE_ERROR)
     else Terminated)"

text \<open>\<^verbatim>\<open>switch(paddingCounter)\<close>: the characters appended for one group.\<close>

definition Base64_bytes :: "nat \<Rightarrow> 24 word \<Rightarrow> string outcome" where
  "Base64_bytes paddingCounter bitset =
    (if paddingCounter = 0 then
       Returns [to_char (drop_bit 16 bitset), to_char (drop_bit 8 bitset), to_char bitset]
     else if paddingCounter = 1 then
       Returns [to_char (drop_bit 16 bitset), to_char (drop_bit 8 bitset)]
     else if paddingCounter = 2 then Returns [to_char (drop_bit 16 bitset)]
     else Throws (Base64_Error Base64_STRING_PARSE_ERROR))"

text \<open>
  Everything in the outer loop's body after the inner loop: the two switches and the
  \<^verbatim>\<open>if(paddingCounter > 0) break\<close>.  The result is the text so far and whether the outer
  loop goes on.
\<close>

definition Base64_emit :: "string \<Rightarrow> nat \<Rightarrow> nat \<Rightarrow> 24 word \<Rightarrow> (string \<times> bool) outcome" where
  "Base64_emit decodedString loopCounter paddingCounter bitset =
    (case Base64_tail loopCounter paddingCounter bitset of
       Returns (paddingCounter', bitset') \<Rightarrow>
         (case Base64_bytes paddingCounter' bitset' of
            Returns bs \<Rightarrow> Returns (decodedString @ bs, \<not> paddingCounter' > 0)
          | Throws e \<Rightarrow> Throws e
          | Terminated \<Rightarrow> Terminated
          | Undefined_Read \<Rightarrow> Undefined_Read)
     | Throws e \<Rightarrow> Throws e
     | Terminated \<Rightarrow> Terminated
     | Undefined_Read \<Rightarrow> Undefined_Read)"

lemma Base64_group_iter_mono:
  "Base64_group s iter jter paddingCounter loopCounter bitset = Returns (iter', r)
   \<Longrightarrow> iter \<le> jter \<Longrightarrow> iter \<le> iter'"
proof (induction s iter jter paddingCounter loopCounter bitset rule: Base64_group.induct)
  case (1 s iter jter paddingCounter loopCounter bitset)
  note eq = "1.prems"(1) [unfolded Base64_group.simps [of s iter jter paddingCounter loopCounter bitset]]
  show ?case
  proof (cases "jter < length s")
    case False
    with eq show ?thesis by simp
  next
    case True
    with eq "1.IH" "1.prems"(2) show ?thesis
      by (cases "Base64_symbol paddingCounter (push_bit 6 bitset) (s ! jter)")
         (auto split: if_splits)
  qed
qed

function Base64_loop :: "string \<Rightarrow> nat \<Rightarrow> string \<Rightarrow> string outcome" where
  "Base64_loop s iter decodedString =
    (if iter < length s then
       (case Base64_group s iter iter 0 0 0 of
          Returns (iter', paddingCounter, loopCounter, bitset) \<Rightarrow>
            (case Base64_emit decodedString loopCounter paddingCounter bitset of
               Returns (decodedString', continue) \<Rightarrow>
                 (if continue then Base64_loop s (iter' + 1) decodedString'
                  else Returns decodedString')
             | Throws e \<Rightarrow> Throws e
             | Terminated \<Rightarrow> Terminated
             | Undefined_Read \<Rightarrow> Undefined_Read)
        | Throws e \<Rightarrow> Throws e
        | Terminated \<Rightarrow> Terminated
        | Undefined_Read \<Rightarrow> Undefined_Read)
     else Returns decodedString)"
  by pat_completeness auto
termination
proof (relation "measure (\<lambda>(s, iter, decodedString). length s - iter)", goal_cases)
  case 1
  show ?case by simp
next
  case (2 s iter decodedString x1 iter' y paddingCounter z loopCounter bitset x1a decodedString' continue)
  then have "Base64_group s iter iter 0 0 0 = Returns (iter', y)"
    by simp
  then have "iter \<le> iter'"
    by (rule Base64_group_iter_mono) simp
  with 2 show ?case by simp
qed

declare Base64_loop.simps [simp del]

text \<open>
  \<^verbatim>\<open>Base64::DecodeStringToString\<close>.  As for Base16, the \<^verbatim>\<open>reserve\<close> asks for less than the
  input's own size (three quarters, rounded up to a group) and is not modelled.
\<close>

definition Base64_DecodeStringToString :: "string \<Rightarrow> string outcome" where
  "Base64_DecodeStringToString encodedString = Base64_loop encodedString 0 []"

subsection \<open>Base64 decoding group by group\<close>

text \<open>
  The decoder skips nothing, so its groups are the consecutive blocks of four characters.
  \<open>Base64_scan\<close> runs the inner loop's body over one block, \<open>Base64_chunks\<close> is the outer
  loop on the rest of the string.  They serve the proofs: the cursor loops are shown equal to
  them, and the claims are proved about them.
\<close>

fun Base64_scan :: "string \<Rightarrow> nat \<Rightarrow> 24 word \<Rightarrow> (nat \<times> 24 word) outcome" where
  "Base64_scan [] paddingCounter bitset = Returns (paddingCounter, bitset)"
| "Base64_scan (c # cs) paddingCounter bitset =
    (case Base64_symbol paddingCounter (push_bit 6 bitset) c of
       Returns (paddingCounter', bitset') \<Rightarrow> Base64_scan cs paddingCounter' bitset'
     | Throws e \<Rightarrow> Throws e
     | Terminated \<Rightarrow> Terminated
     | Undefined_Read \<Rightarrow> Undefined_Read)"

function Base64_chunks :: "string \<Rightarrow> string \<Rightarrow> string outcome" where
  "Base64_chunks s out =
    (if s = [] then Returns out
     else
       (case Base64_scan (take 4 s) 0 0 of
          Returns (paddingCounter, bitset) \<Rightarrow>
            (case Base64_emit out (length (take 4 s)) paddingCounter bitset of
               Returns (out', continue) \<Rightarrow>
                 (if continue then Base64_chunks (drop 4 s) out' else Returns out')
             | Throws e \<Rightarrow> Throws e
             | Terminated \<Rightarrow> Terminated
             | Undefined_Read \<Rightarrow> Undefined_Read)
        | Throws e \<Rightarrow> Throws e
        | Terminated \<Rightarrow> Terminated
        | Undefined_Read \<Rightarrow> Undefined_Read))"
  by pat_completeness auto
termination
  by (relation "measure (\<lambda>(s, out). length s)") auto

declare Base64_chunks.simps [simp del]

definition Base64_leave ::
  "nat \<Rightarrow> nat \<Rightarrow> (nat \<times> 24 word) outcome \<Rightarrow> (nat \<times> nat \<times> nat \<times> 24 word) outcome" where
  "Base64_leave iter' loopCounter r =
    (case r of
       Returns (paddingCounter, bitset) \<Rightarrow> Returns (iter', paddingCounter, loopCounter, bitset)
     | Throws e \<Rightarrow> Throws e
     | Terminated \<Rightarrow> Terminated
     | Undefined_Read \<Rightarrow> Undefined_Read)"

lemma Base64_group_scan:
  "iter \<le> jter \<Longrightarrow> jter < iter + 4 \<Longrightarrow> jter < length s \<Longrightarrow>
   Base64_group s iter jter paddingCounter loopCounter bitset =
     Base64_leave (min (iter + 4) (length s) - 1)
       (loopCounter + (min (iter + 4) (length s) - jter))
       (Base64_scan (take (iter + 4 - jter) (drop jter s)) paddingCounter bitset)"
proof (induction s iter jter paddingCounter loopCounter bitset rule: Base64_group.induct)
  case (1 s iter jter paddingCounter loopCounter bitset)
  from "1.prems" have "iter + 4 - jter = Suc (iter + 4 - (jter + 1))" by simp
  moreover from "1.prems" have "drop jter s = s ! jter # drop (jter + 1) s"
    by (simp add: Cons_nth_drop_Suc)
  ultimately have dr: "take (iter + 4 - jter) (drop jter s) =
      s ! jter # take (iter + 4 - (jter + 1)) (drop (jter + 1) s)"
    by (simp only: take_Suc_Cons)
  show ?case
  proof (cases "Base64_symbol paddingCounter (push_bit 6 bitset) (s ! jter)")
    case (Returns r)
    obtain pc' bits' where r: "r = (pc', bits')" by (cases r)
    show ?thesis
    proof (cases "jter + 1 = length s \<or> jter + 1 = iter + 4")
      case True
      then have "take (iter + 4 - (jter + 1)) (drop (jter + 1) s) = []" by auto
      with True Returns r "1.prems" show ?thesis
        by (subst Base64_group.simps) (auto simp add: dr min_def Base64_leave_def)
    next
      case False
      with "1.prems" have ih: "Base64_group s iter (jter + 1) pc' (loopCounter + 1) bits' =
          Base64_leave (min (iter + 4) (length s) - 1)
            ((loopCounter + 1) + (min (iter + 4) (length s) - (jter + 1)))
            (Base64_scan (take (iter + 4 - (jter + 1)) (drop (jter + 1) s)) pc' bits')"
        using "1.IH" [of "(pc', bits')" pc' bits'] Returns r by simp
      from False "1.prems"
      have lc: "loopCounter + (min (iter + 4) (length s) - jter) =
          (loopCounter + 1) + (min (iter + 4) (length s) - (jter + 1))"
        by (auto simp add: min_def)
      have "Base64_group s iter (jter + 1) pc' (loopCounter + 1) bits' =
          Base64_leave (min (iter + 4) (length s) - 1)
            (loopCounter + (min (iter + 4) (length s) - jter))
            (Base64_scan (take (iter + 4 - (jter + 1)) (drop (jter + 1) s)) pc' bits')"
        unfolding lc by (rule ih)
      moreover have "Base64_group s iter jter paddingCounter loopCounter bitset =
          Base64_group s iter (jter + 1) pc' (loopCounter + 1) bits'"
        using False Returns r "1.prems" by (subst Base64_group.simps) simp
      moreover have "Base64_scan (take (iter + 4 - jter) (drop jter s)) paddingCounter bitset =
          Base64_scan (take (iter + 4 - (jter + 1)) (drop (jter + 1) s)) pc' bits'"
        using Returns r by (simp add: dr)
      ultimately show ?thesis by simp
    qed
  next
    case (Throws e)
    with "1.prems" show ?thesis by (subst Base64_group.simps) (simp add: dr Base64_leave_def)
  next
    case Terminated
    with "1.prems" show ?thesis by (subst Base64_group.simps) (simp add: dr Base64_leave_def)
  next
    case Undefined_Read
    with "1.prems" show ?thesis by (subst Base64_group.simps) (simp add: dr Base64_leave_def)
  qed
qed

definition Base64_body ::
  "(string \<Rightarrow> string outcome) \<Rightarrow> string \<Rightarrow> nat \<Rightarrow> (nat \<times> 24 word) outcome \<Rightarrow> string outcome" where
  "Base64_body k out loopCounter r =
    (case r of
       Returns (paddingCounter, bitset) \<Rightarrow>
         (case Base64_emit out loopCounter paddingCounter bitset of
            Returns (out', continue) \<Rightarrow> (if continue then k out' else Returns out')
          | Throws e \<Rightarrow> Throws e
          | Terminated \<Rightarrow> Terminated
          | Undefined_Read \<Rightarrow> Undefined_Read)
     | Throws e \<Rightarrow> Throws e
     | Terminated \<Rightarrow> Terminated
     | Undefined_Read \<Rightarrow> Undefined_Read)"

lemma Base64_chunks_unfold:
  "Base64_chunks s out =
    (if s = [] then Returns out
     else Base64_body (Base64_chunks (drop 4 s)) out (length (take 4 s))
            (Base64_scan (take 4 s) 0 0))"
  unfolding Base64_body_def by (rule Base64_chunks.simps)

lemma Base64_loop_unfold:
  assumes "iter < length s"
  shows "Base64_loop s iter out =
    Base64_body (Base64_loop s (min (iter + 4) (length s))) out (length (take 4 (drop iter s)))
      (Base64_scan (take 4 (drop iter s)) 0 0)"
proof -
  have len: "min (iter + 4) (length s) - iter = length (take 4 (drop iter s))"
    by (auto simp add: min_def)
  have g: "Base64_group s iter iter 0 0 0 =
      Base64_leave (min (iter + 4) (length s) - 1) (length (take 4 (drop iter s)))
        (Base64_scan (take 4 (drop iter s)) 0 0)"
    using Base64_group_scan [of iter iter s 0 0 0] assms unfolding len [symmetric] by simp
  have next_pos: "min (iter + 4) (length s) - 1 + 1 = min (iter + 4) (length s)"
    using assms by (auto simp add: min_def)
  show ?thesis
  proof (cases "Base64_scan (take 4 (drop iter s)) 0 0")
    case (Returns r)
    obtain pc bits where r: "r = (pc, bits)" by (cases r)
    have "Base64_loop s iter out =
      (case Base64_emit out (length (take 4 (drop iter s))) pc bits of
         Returns (out', continue) \<Rightarrow>
           (if continue then Base64_loop s (min (iter + 4) (length s) - 1 + 1) out'
            else Returns out')
       | Throws e \<Rightarrow> Throws e
       | Terminated \<Rightarrow> Terminated
       | Undefined_Read \<Rightarrow> Undefined_Read)"
      using assms by (subst Base64_loop.simps) (simp add: g Returns r Base64_leave_def split: outcome.splits)
    then show ?thesis
      unfolding next_pos by (simp add: Base64_body_def Returns r)
  next
    case (Throws e)
    with assms show ?thesis
      by (subst Base64_loop.simps) (simp add: g Base64_leave_def Base64_body_def)
  next
    case Terminated
    with assms show ?thesis
      by (subst Base64_loop.simps) (simp add: g Base64_leave_def Base64_body_def)
  next
    case Undefined_Read
    with assms show ?thesis
      by (subst Base64_loop.simps) (simp add: g Base64_leave_def Base64_body_def)
  qed
qed

lemma Base64_loop_chunks:
  "Base64_loop s iter out = Base64_chunks (drop iter s) out"
proof (induction "length s - iter" arbitrary: iter out rule: less_induct)
  case less
  show ?case
  proof (cases "iter < length s")
    case False
    then show ?thesis by (subst Base64_loop.simps, subst Base64_chunks.simps) simp
  next
    case True
    then have ne: "drop iter s \<noteq> []" by simp
    have dd: "drop 4 (drop iter s) = drop (min (iter + 4) (length s)) s"
      by (auto simp add: min_def add.commute)
    from True have "length s - min (iter + 4) (length s) < length s - iter"
      by (auto simp add: min_def)
    then have "Base64_loop s (min (iter + 4) (length s)) = Base64_chunks (drop 4 (drop iter s))"
      unfolding dd by (intro ext less.hyps)
    then show ?thesis
      using True by (simp add: Base64_loop_unfold [OF True] Base64_chunks_unfold [of "drop iter s"])
  qed
qed

lemma Base64_decode_chunks: "Base64_DecodeStringToString s = Base64_chunks s []"
  by (simp add: Base64_DecodeStringToString_def Base64_loop_chunks)

lemma Base64_value_pad: "Base64_value (CHR ''='') = None"
  by code_simp

lemma Base64_symbol_pad:
  "Base64_symbol paddingCounter bitset (CHR ''='') = Returns (paddingCounter + 1, bitset)"
  by (simp add: Base64_symbol_def Base64_value_pad)

lemma Base64_symbol_other:
  "c \<noteq> CHR ''='' \<Longrightarrow> Base64_symbol paddingCounter bitset c =
    (if paddingCounter > 0 then Throws (Base64_Error Base64_STRING_PARSE_ERROR)
     else (case Base64_value c of
             Some v \<Rightarrow> Returns (0, bitset OR v)
           | None \<Rightarrow> Throws (Base64_Error Base64_STRING_PARSE_ERROR)))"
  by (simp add: Base64_symbol_def split: option.splits)

lemma Base64_symbol_cases:
  "Base64_symbol paddingCounter bitset c = Throws (Base64_Error Base64_STRING_PARSE_ERROR) \<or>
   (\<exists>bitset'. Base64_symbol paddingCounter bitset c =
      Returns (if c = CHR ''='' then paddingCounter + 1 else paddingCounter, bitset'))"
  by (cases "c = CHR ''=''")
     (auto simp add: Base64_symbol_pad Base64_symbol_other split: option.splits)

lemma Base64_scan_cases:
  "Base64_scan cs paddingCounter bitset = Throws (Base64_Error Base64_STRING_PARSE_ERROR) \<or>
   (\<exists>bitset'. Base64_scan cs paddingCounter bitset =
      Returns (paddingCounter + length (filter (\<lambda>c. c = CHR ''='') cs), bitset'))"
proof (induction cs arbitrary: paddingCounter bitset)
  case Nil
  show ?case by simp
next
  case (Cons c cs)
  from Base64_symbol_cases [of paddingCounter "push_bit 6 bitset" c] show ?case
  proof (elim disjE exE)
    assume "Base64_symbol paddingCounter (push_bit 6 bitset) c =
      Throws (Base64_Error Base64_STRING_PARSE_ERROR)"
    then show ?thesis by simp
  next
    fix bitset'
    assume sym: "Base64_symbol paddingCounter (push_bit 6 bitset) c =
      Returns (if c = CHR ''='' then paddingCounter + 1 else paddingCounter, bitset')"
    from Cons.IH [of "if c = CHR ''='' then paddingCounter + 1 else paddingCounter" bitset'] sym
    show ?thesis by auto
  qed
qed

lemma Base64_scan_no_pad:
  assumes "CHR ''='' \<notin> set cs"
  shows "Base64_scan cs 0 bitset = Throws (Base64_Error Base64_STRING_PARSE_ERROR) \<or>
         (\<exists>bitset'. Base64_scan cs 0 bitset = Returns (0, bitset'))"
proof -
  from assms have "filter (\<lambda>c. c = CHR ''='') cs = []"
    by (induction cs) auto
  with Base64_scan_cases [of cs 0 bitset] show ?thesis by simp
qed

lemma Base64_scan_valid:
  "\<forall>c \<in> set cs. Base64_value c \<noteq> None \<Longrightarrow> \<exists>bitset'. Base64_scan cs 0 bitset = Returns (0, bitset')"
proof (induction cs arbitrary: bitset)
  case Nil
  show ?case by simp
next
  case (Cons c cs)
  then obtain v where v: "Base64_value c = Some v" by auto
  then have "c \<noteq> CHR ''=''" using Base64_value_pad by auto
  with v have "Base64_symbol 0 (push_bit 6 bitset) c = Returns (0, push_bit 6 bitset OR v)"
    by (simp add: Base64_symbol_other)
  with Cons show ?case by simp
qed

lemma Base64_scan_after_pad:
  "0 < paddingCounter \<Longrightarrow> j < length cs \<Longrightarrow> cs ! j \<noteq> CHR ''='' \<Longrightarrow>
   Base64_scan cs paddingCounter bitset = Throws (Base64_Error Base64_STRING_PARSE_ERROR)"
proof (induction cs arbitrary: j paddingCounter bitset)
  case Nil
  then show ?case by simp
next
  case (Cons c cs)
  show ?case
  proof (cases "c = CHR ''=''")
    case True
    with Cons.prems obtain j' where j': "j = Suc j'" by (cases j) auto
    with Cons.prems have "Base64_scan cs (paddingCounter + 1) (push_bit 6 bitset) =
        Throws (Base64_Error Base64_STRING_PARSE_ERROR)"
      by (intro Cons.IH [of _ j']) auto
    with True show ?thesis by (simp add: Base64_symbol_pad)
  next
    case False
    with Cons.prems show ?thesis by (simp add: Base64_symbol_other)
  qed
qed

lemma Base64_scan_pad_then_other:
  "i < j \<Longrightarrow> j < length cs \<Longrightarrow> cs ! i = CHR ''='' \<Longrightarrow> cs ! j \<noteq> CHR ''='' \<Longrightarrow>
   Base64_scan cs paddingCounter bitset = Throws (Base64_Error Base64_STRING_PARSE_ERROR)"
proof (induction cs arbitrary: i j paddingCounter bitset)
  case Nil
  then show ?case by simp
next
  case (Cons c cs)
  from Cons.prems obtain j' where j': "j = Suc j'" by (cases j) auto
  show ?case
  proof (cases i)
    case 0
    with Cons.prems j' have "Base64_scan cs (paddingCounter + 1) (push_bit 6 bitset) =
        Throws (Base64_Error Base64_STRING_PARSE_ERROR)"
      by (intro Base64_scan_after_pad [of _ j']) auto
    with 0 Cons.prems show ?thesis by (simp add: Base64_symbol_pad)
  next
    case (Suc i')
    from Base64_symbol_cases [of paddingCounter "push_bit 6 bitset" c] show ?thesis
    proof (elim disjE exE)
      assume "Base64_symbol paddingCounter (push_bit 6 bitset) c =
        Throws (Base64_Error Base64_STRING_PARSE_ERROR)"
      then show ?thesis by simp
    next
      fix bitset'
      assume sym: "Base64_symbol paddingCounter (push_bit 6 bitset) c =
        Returns (if c = CHR ''='' then paddingCounter + 1 else paddingCounter, bitset')"
      from Cons.prems Suc j'
      have "Base64_scan cs (if c = CHR ''='' then paddingCounter + 1 else paddingCounter) bitset' =
          Throws (Base64_Error Base64_STRING_PARSE_ERROR)"
        by (intro Cons.IH [of i' j']) auto
      with sym show ?thesis by simp
    qed
  qed
qed

lemma div4_step: "4 \<le> (n::nat) \<Longrightarrow> (n - 4) div 4 + 1 = n div 4"
  by (simp add: le_div_geq)

lemma mod4_step: "(n::nat) mod 4 = 0 \<Longrightarrow> (n - 4) mod 4 = 0"
  by (cases "4 \<le> n") (simp_all add: le_mod_geq)

lemma Base64_emit_full:
  "Base64_emit out 4 0 bitset =
    Returns (out @ [to_char (drop_bit 16 bitset), to_char (drop_bit 8 bitset), to_char bitset], True)"
  by (simp add: Base64_emit_def Base64_tail_def Base64_bytes_def)

lemma Base64_emit_stops:
  "Base64_emit out loopCounter paddingCounter bitset = Returns (out', continue) \<Longrightarrow>
   0 < paddingCounter \<or> loopCounter \<noteq> 4 \<Longrightarrow> \<not> continue"
  by (auto simp add: Base64_emit_def Base64_tail_def Base64_bytes_def split: if_splits)

lemma Base64_chunks_step:
  assumes "4 \<le> length pre"
  shows "Base64_chunks (pre @ t) out =
    Base64_body (Base64_chunks (drop 4 pre @ t)) out 4 (Base64_scan (take 4 pre) 0 0)"
proof -
  from assms have "pre @ t \<noteq> []" by auto
  moreover from assms have "take 4 (pre @ t) = take 4 pre" by simp
  moreover from assms have "drop 4 (pre @ t) = drop 4 pre @ t" by simp
  moreover from assms have "length (take 4 pre) = 4" by simp
  ultimately show ?thesis
    by (subst Base64_chunks_unfold) (simp only: if_False)
qed

lemma Base64_chunks_append_cong:
  assumes same: "\<And>out. Base64_chunks t1 out = Base64_chunks t2 out"
  shows "length pre mod 4 = 0 \<Longrightarrow> Base64_chunks (pre @ t1) out = Base64_chunks (pre @ t2) out"
proof (induction "length pre" arbitrary: pre out rule: less_induct)
  case less
  show ?case
  proof (cases "pre = []")
    case True
    with same show ?thesis by simp
  next
    case False
    with less.prems have len: "4 \<le> length pre" by (cases "length pre < 4") auto
    then have "length (drop 4 pre) < length pre" and "length (drop 4 pre) mod 4 = 0"
      using less.prems by (simp_all add: mod4_step)
    then have "Base64_chunks (drop 4 pre @ t1) = Base64_chunks (drop 4 pre @ t2)"
      by (intro ext less.hyps)
    then show ?thesis by (simp add: Base64_chunks_step [OF len])
  qed
qed

lemma Base64_chunks_no_pad:
  "length pre mod 4 = 0 \<Longrightarrow> CHR ''='' \<notin> set pre \<Longrightarrow>
   Base64_chunks (pre @ t) out = Throws (Base64_Error Base64_STRING_PARSE_ERROR) \<or>
   (\<exists>out'. length out' = length out + 3 * (length pre div 4) \<and>
      Base64_chunks (pre @ t) out = Base64_chunks t out')"
proof (induction "length pre" arbitrary: pre out rule: less_induct)
  case less
  show ?case
  proof (cases "pre = []")
    case True
    then show ?thesis by auto
  next
    case False
    with less.prems have len: "4 \<le> length pre" by (cases "length pre < 4") auto
    then have shorter: "length (drop 4 pre) < length pre" and m: "length (drop 4 pre) mod 4 = 0"
      using less.prems by (simp_all add: mod4_step)
    from len have d: "length (drop 4 pre) div 4 + 1 = length pre div 4"
      by (simp add: div4_step)
    from less.prems have "CHR ''='' \<notin> set (take 4 pre)" and np: "CHR ''='' \<notin> set (drop 4 pre)"
      by (auto dest: in_set_takeD in_set_dropD)
    from Base64_scan_no_pad [OF this(1), of 0] show ?thesis
    proof (elim disjE exE)
      assume "Base64_scan (take 4 pre) 0 0 = Throws (Base64_Error Base64_STRING_PARSE_ERROR)"
      then show ?thesis by (simp add: Base64_chunks_step [OF len] Base64_body_def)
    next
      fix bitset'
      assume sc: "Base64_scan (take 4 pre) 0 0 = Returns (0, bitset')"
      let ?out = "out @ [to_char (drop_bit 16 bitset'), to_char (drop_bit 8 bitset'), to_char bitset']"
      have step: "Base64_chunks (pre @ t) out = Base64_chunks (drop 4 pre @ t) ?out"
        by (simp add: Base64_chunks_step [OF len] Base64_body_def sc Base64_emit_full)
      from less.hyps [OF shorter m np, of ?out] show ?thesis
      proof (elim disjE exE conjE)
        assume "Base64_chunks (drop 4 pre @ t) ?out = Throws (Base64_Error Base64_STRING_PARSE_ERROR)"
        with step show ?thesis by simp
      next
        fix out'
        assume l: "length out' = length ?out + 3 * (length (drop 4 pre) div 4)"
          and c: "Base64_chunks (drop 4 pre @ t) ?out = Base64_chunks t out'"
        from l d have "length out' = length out + 3 * (length pre div 4)" by simp
        with step c show ?thesis by auto
      qed
    qed
  qed
qed

lemma Base64_chunks_valid:
  "length pre mod 4 = 0 \<Longrightarrow> \<forall>c \<in> set pre. Base64_value c \<noteq> None \<Longrightarrow>
   \<exists>out'. length out' = length out + 3 * (length pre div 4) \<and>
      Base64_chunks (pre @ t) out = Base64_chunks t out'"
proof (induction "length pre" arbitrary: pre out rule: less_induct)
  case less
  show ?case
  proof (cases "pre = []")
    case True
    then show ?thesis by auto
  next
    case False
    with less.prems have len: "4 \<le> length pre" by (cases "length pre < 4") auto
    then have shorter: "length (drop 4 pre) < length pre" and m: "length (drop 4 pre) mod 4 = 0"
      using less.prems by (simp_all add: mod4_step)
    from len have d: "length (drop 4 pre) div 4 + 1 = length pre div 4"
      by (simp add: div4_step)
    from less.prems have "\<forall>c \<in> set (take 4 pre). Base64_value c \<noteq> None"
      and v: "\<forall>c \<in> set (drop 4 pre). Base64_value c \<noteq> None"
      by (auto dest: in_set_takeD in_set_dropD)
    from Base64_scan_valid [OF this(1), of 0]
    obtain bitset' where sc: "Base64_scan (take 4 pre) 0 0 = Returns (0, bitset')" by blast
    let ?out = "out @ [to_char (drop_bit 16 bitset'), to_char (drop_bit 8 bitset'), to_char bitset']"
    have step: "Base64_chunks (pre @ t) out = Base64_chunks (drop 4 pre @ t) ?out"
      by (simp add: Base64_chunks_step [OF len] Base64_body_def sc Base64_emit_full)
    from less.hyps [OF shorter m v, of ?out] obtain out' where
      l: "length out' = length ?out + 3 * (length (drop 4 pre) div 4)" and
      c: "Base64_chunks (drop 4 pre @ t) ?out = Base64_chunks t out'" by blast
    from l d have "length out' = length out + 3 * (length pre div 4)" by simp
    with step c show ?thesis by auto
  qed
qed

lemma Base64_chunks_short:
  "s \<noteq> [] \<Longrightarrow> length s \<le> 4 \<Longrightarrow>
   Base64_chunks s out = Base64_body (Base64_chunks []) out (length s) (Base64_scan s 0 0)"
  by (subst Base64_chunks_unfold) simp

lemma Base64_chunks_Nil: "Base64_chunks [] out = Returns out"
  by (subst Base64_chunks_unfold) simp

lemma Base64_tail3_eq:
  assumes "a \<noteq> CHR ''=''" "b \<noteq> CHR ''=''" "c \<noteq> CHR ''=''"
  shows "Base64_chunks [a, b, c] out = Base64_chunks [a, b, c, CHR ''=''] out"
proof -
  from assms have "CHR ''='' \<notin> set [a, b, c]" by auto
  from Base64_scan_no_pad [OF this, of 0] show ?thesis
  proof (elim disjE exE)
    assume "Base64_scan [a, b, c] 0 0 = Throws (Base64_Error Base64_STRING_PARSE_ERROR)"
    then show ?thesis
      by (auto simp add: Base64_chunks_short Base64_body_def split: outcome.splits)
  next
    fix bitset'
    assume "Base64_scan [a, b, c] 0 0 = Returns (0, bitset')"
    then show ?thesis
      by (auto simp add: Base64_chunks_short Base64_body_def Base64_symbol_pad Base64_emit_def
          Base64_tail_def Base64_bytes_def split: outcome.splits)
  qed
qed

lemma Base64_tail2_eq:
  assumes "a \<noteq> CHR ''=''" "b \<noteq> CHR ''=''"
  shows "Base64_chunks [a, b] out = Base64_chunks [a, b, CHR ''='', CHR ''=''] out"
proof -
  from assms have "CHR ''='' \<notin> set [a, b]" by auto
  from Base64_scan_no_pad [OF this, of 0] show ?thesis
  proof (elim disjE exE)
    assume "Base64_scan [a, b] 0 0 = Throws (Base64_Error Base64_STRING_PARSE_ERROR)"
    then show ?thesis
      by (auto simp add: Base64_chunks_short Base64_body_def split: outcome.splits)
  next
    fix bitset'
    assume "Base64_scan [a, b] 0 0 = Returns (0, bitset')"
    then show ?thesis
      by (auto simp add: Base64_chunks_short Base64_body_def Base64_symbol_pad Base64_emit_def
          Base64_tail_def Base64_bytes_def push_bit_push_bit split: outcome.splits)
  qed
qed

lemma Base64_tail_length:
  assumes "CHR ''='' \<notin> set t" "t \<noteq> []" "length t < 4"
  shows "Base64_chunks t out = Throws (Base64_Error Base64_STRING_PARSE_ERROR) \<or>
    (1 < length t \<and> (\<exists>bs. length bs = length t - 1 \<and> Base64_chunks t out = Returns (out @ bs)))"
proof -
  from assms(3) have len: "length t = 0 \<or> length t = 1 \<or> length t = 2 \<or> length t = 3" by arith
  from Base64_scan_no_pad [OF assms(1), of 0] show ?thesis
  proof (elim disjE exE)
    assume "Base64_scan t 0 0 = Throws (Base64_Error Base64_STRING_PARSE_ERROR)"
    with assms show ?thesis
      by (simp add: Base64_chunks_short Base64_body_def)
  next
    fix bitset'
    assume "Base64_scan t 0 0 = Returns (0, bitset')"
    with assms len show ?thesis
      by (auto simp add: Base64_chunks_short Base64_body_def Base64_emit_def
          Base64_tail_def Base64_bytes_def)
  qed
qed

lemma Base64_tail_valid:
  assumes "\<forall>c \<in> set t. Base64_value c \<noteq> None" "1 < length t" "length t < 4"
  shows "\<exists>bs. length bs = length t - 1 \<and> Base64_chunks t out = Returns (out @ bs)"
proof -
  from assms have len: "length t = 2 \<or> length t = 3" by arith
  then have ne: "t \<noteq> []" by auto
  from Base64_scan_valid [OF assms(1), of 0] obtain bitset' where
    "Base64_scan t 0 0 = Returns (0, bitset')" by blast
  with assms len ne show ?thesis
    by (auto simp add: Base64_chunks_short Base64_body_def Base64_emit_def
          Base64_tail_def Base64_bytes_def)
qed

text \<open>
  C7: Base64 decoding treats a final group of exactly three non-pad symbols as if one \<open>=\<close>
  followed (two bytes come out), a final group of exactly two non-pad symbols as if two \<open>=\<close>
  followed (one byte comes out), and raises the parse error for a final group of exactly one
  symbol.  The final group is what follows \<open>pre\<close>, a whole number of four-symbol groups
  without \<open>=\<close>; with symbols of the alphabet throughout the decoder does return.
\<close>

theorem Base64_final_group:
  assumes "length pre mod 4 = 0" and "CHR ''='' \<notin> set pre"
    and "a \<noteq> CHR ''=''" and "b \<noteq> CHR ''=''" and "c \<noteq> CHR ''=''"
  shows "Base64_DecodeStringToString (pre @ [a, b, c]) =
           Base64_DecodeStringToString (pre @ [a, b, c, CHR ''='']) \<and>
         (\<forall>out. Base64_DecodeStringToString (pre @ [a, b, c]) = Returns out
            \<longrightarrow> length out = 3 * (length pre div 4) + 2) \<and>
         ((\<forall>x \<in> set (pre @ [a, b, c]). Base64_value x \<noteq> None)
            \<longrightarrow> (\<exists>out. Base64_DecodeStringToString (pre @ [a, b, c]) = Returns out)) \<and>
         Base64_DecodeStringToString (pre @ [a, b]) =
           Base64_DecodeStringToString (pre @ [a, b, CHR ''='', CHR ''='']) \<and>
         (\<forall>out. Base64_DecodeStringToString (pre @ [a, b]) = Returns out
            \<longrightarrow> length out = 3 * (length pre div 4) + 1) \<and>
         ((\<forall>x \<in> set (pre @ [a, b]). Base64_value x \<noteq> None)
            \<longrightarrow> (\<exists>out. Base64_DecodeStringToString (pre @ [a, b]) = Returns out)) \<and>
         Base64_DecodeStringToString (pre @ [a]) = Throws (Base64_Error Base64_STRING_PARSE_ERROR)"
proof (intro conjI allI impI)
  show "Base64_DecodeStringToString (pre @ [a, b, c]) =
        Base64_DecodeStringToString (pre @ [a, b, c, CHR ''=''])"
    unfolding Base64_decode_chunks
    using assms by (intro Base64_chunks_append_cong Base64_tail3_eq)
  show "Base64_DecodeStringToString (pre @ [a, b]) =
        Base64_DecodeStringToString (pre @ [a, b, CHR ''='', CHR ''=''])"
    unfolding Base64_decode_chunks
    using assms by (intro Base64_chunks_append_cong Base64_tail2_eq)
next
  fix out
  assume r: "Base64_DecodeStringToString (pre @ [a, b, c]) = Returns out"
  from assms have t: "CHR ''='' \<notin> set [a, b, c]" by auto
  from Base64_chunks_no_pad [OF assms(1,2), of "[a, b, c]" "[]"] r
  obtain out' where "length out' = 3 * (length pre div 4)"
    and "Base64_chunks [a, b, c] out' = Returns out"
    unfolding Base64_decode_chunks by auto
  with Base64_tail_length [OF t, of out'] show "length out = 3 * (length pre div 4) + 2"
    by auto
next
  fix out
  assume r: "Base64_DecodeStringToString (pre @ [a, b]) = Returns out"
  from assms have t: "CHR ''='' \<notin> set [a, b]" by auto
  from Base64_chunks_no_pad [OF assms(1,2), of "[a, b]" "[]"] r
  obtain out' where "length out' = 3 * (length pre div 4)"
    and "Base64_chunks [a, b] out' = Returns out"
    unfolding Base64_decode_chunks by auto
  with Base64_tail_length [OF t, of out'] show "length out = 3 * (length pre div 4) + 1"
    by auto
next
  assume v: "\<forall>x \<in> set (pre @ [a, b, c]). Base64_value x \<noteq> None"
  then have "\<forall>x \<in> set pre. Base64_value x \<noteq> None" by auto
  from Base64_chunks_valid [OF assms(1) this, of "[]" "[a, b, c]"]
  obtain out' where "Base64_chunks (pre @ [a, b, c]) [] = Base64_chunks [a, b, c] out'" by blast
  moreover from v have "\<forall>x \<in> set [a, b, c]. Base64_value x \<noteq> None" by auto
  from Base64_tail_valid [OF this, of out']
  obtain bs where "Base64_chunks [a, b, c] out' = Returns (out' @ bs)" by auto
  ultimately show "\<exists>out. Base64_DecodeStringToString (pre @ [a, b, c]) = Returns out"
    unfolding Base64_decode_chunks by simp
next
  assume v: "\<forall>x \<in> set (pre @ [a, b]). Base64_value x \<noteq> None"
  then have "\<forall>x \<in> set pre. Base64_value x \<noteq> None" by auto
  from Base64_chunks_valid [OF assms(1) this, of "[]" "[a, b]"]
  obtain out' where "Base64_chunks (pre @ [a, b]) [] = Base64_chunks [a, b] out'" by blast
  moreover from v have "\<forall>x \<in> set [a, b]. Base64_value x \<noteq> None" by auto
  from Base64_tail_valid [OF this, of out']
  obtain bs where "Base64_chunks [a, b] out' = Returns (out' @ bs)" by auto
  ultimately show "\<exists>out. Base64_DecodeStringToString (pre @ [a, b]) = Returns out"
    unfolding Base64_decode_chunks by simp
next
  from assms have t: "CHR ''='' \<notin> set [a]" by auto
  from Base64_chunks_no_pad [OF assms(1,2), of "[a]" "[]"]
       Base64_tail_length [OF t]
  show "Base64_DecodeStringToString (pre @ [a]) = Throws (Base64_Error Base64_STRING_PARSE_ERROR)"
    unfolding Base64_decode_chunks by auto
qed

theorem Base64_final_group_witness:
  "length ''Zm9v'' mod 4 = 0 \<and> CHR ''='' \<notin> set ''Zm9v'' \<and>
   CHR ''Y'' \<noteq> CHR ''='' \<and> CHR ''m'' \<noteq> CHR ''='' \<and> CHR ''E'' \<noteq> CHR ''='' \<and>
   Base64_DecodeStringToString ''Zm9vYmE'' = Returns ''fooba'' \<and>
   Base64_DecodeStringToString ''Zm9vYmE='' = Returns ''fooba'' \<and>
   Base64_DecodeStringToString ''Zm9vYm'' = Returns ''foob'' \<and>
   Base64_DecodeStringToString ''Zm9vYm=='' = Returns ''foob'' \<and>
   Base64_DecodeStringToString ''Zm9vY'' = Throws (Base64_Error Base64_STRING_PARSE_ERROR)"
proof -
  have h1: "length ''Zm9v'' mod 4 = 0" by simp
  have h2: "CHR ''='' \<notin> set ''Zm9v''" by simp
  have h3: "CHR ''Y'' \<noteq> CHR ''=''" by simp
  have h4: "CHR ''m'' \<noteq> CHR ''=''" by simp
  have h5: "CHR ''E'' \<noteq> CHR ''=''" by simp
  have three: "Base64_DecodeStringToString ''Zm9vYmE'' = Returns ''fooba''" by code_simp
  have two: "Base64_DecodeStringToString ''Zm9vYm'' = Returns ''foob''" by code_simp
  from Base64_final_group [OF h1 h2 h3 h4 h5]
  have "Base64_DecodeStringToString ''Zm9vYmE'' = Base64_DecodeStringToString ''Zm9vYmE=''"
    and "Base64_DecodeStringToString ''Zm9vYm'' = Base64_DecodeStringToString ''Zm9vYm==''"
    and "Base64_DecodeStringToString ''Zm9vY'' = Throws (Base64_Error Base64_STRING_PARSE_ERROR)"
    by simp_all
  with three two h1 h2 show ?thesis by simp
qed

subsection \<open>Base64: what happens after a pad character\<close>

lemma Base64_scan_has_pad:
  assumes "CHR ''='' \<in> set cs" and "Base64_scan cs paddingCounter bitset = Returns (paddingCounter', bitset')"
  shows "0 < paddingCounter'"
proof -
  from assms(1) have "filter (\<lambda>c. c = CHR ''='') cs \<noteq> []"
    by (induction cs) auto
  then have "0 < length (filter (\<lambda>c. c = CHR ''='') cs)" by simp
  with Base64_scan_cases [of cs paddingCounter bitset] assms(2) show ?thesis by auto
qed

lemma Base64_body_stops:
  assumes "\<And>paddingCounter bitset. r = Returns (paddingCounter, bitset) \<Longrightarrow> 0 < paddingCounter"
  shows "Base64_body k1 out loopCounter r = Base64_body k2 out loopCounter r"
proof (cases r)
  case (Returns x)
  obtain paddingCounter bitset where x: "x = (paddingCounter, bitset)" by (cases x)
  with Returns assms have "0 < paddingCounter" by simp
  then have "\<not> continue"
    if "Base64_emit out loopCounter paddingCounter bitset = Returns (out', continue)"
    for out' continue
    using Base64_emit_stops [OF that] by simp
  then show ?thesis
    by (auto simp add: Base64_body_def Returns x split: outcome.splits)
qed (simp_all add: Base64_body_def)

lemma Base64_chunks_stop_first:
  assumes "CHR ''='' \<in> set (take 4 s)"
  shows "Base64_chunks s out = Base64_chunks (take 4 s) out"
proof -
  from assms have ne: "s \<noteq> []" by auto
  have "Base64_chunks s out =
      Base64_body (Base64_chunks (drop 4 s)) out (length (take 4 s)) (Base64_scan (take 4 s) 0 0)"
    using ne by (subst Base64_chunks_unfold) (simp only: if_False)
  also have "\<dots> = Base64_body (Base64_chunks (drop 4 (take 4 s))) out (length (take 4 s))
      (Base64_scan (take 4 s) 0 0)"
    by (rule Base64_body_stops) (rule Base64_scan_has_pad [OF assms])
  also have "\<dots> = Base64_chunks (take 4 s) out"
    using ne by (subst Base64_chunks_unfold) simp
  finally show ?thesis .
qed

lemma Base64_chunks_stop:
  "p < length s \<Longrightarrow> s ! p = CHR ''='' \<Longrightarrow>
   Base64_chunks s out = Base64_chunks (take (4 * (p div 4) + 4) s) out"
proof (induction "p div 4" arbitrary: p s out)
  case 0
  then have p: "p < 4" by simp
  with "0.prems" have "take 4 s ! p = CHR ''=''" and "p < length (take 4 s)" by simp_all
  then have "CHR ''='' \<in> set (take 4 s)" by (metis nth_mem)
  from Base64_chunks_stop_first [OF this] "0.hyps" [symmetric] show ?case by simp
next
  case (Suc k)
  then have p: "4 \<le> p" by (cases "p < 4") auto
  with Suc.prems have len: "4 \<le> length (take 4 s)" by simp
  from p Suc.hyps(2) have k: "k = (p - 4) div 4" by (simp add: div4_step [symmetric])
  from p Suc.prems have "p - 4 < length (drop 4 s)" and "drop 4 s ! (p - 4) = CHR ''=''"
    by simp_all
  from Suc.hyps(1) [OF k this] have ih:
    "Base64_chunks (drop 4 s) = Base64_chunks (take (4 * k + 4) (drop 4 s))"
    unfolding k [symmetric] by (intro ext)
  have split: "take (4 * (p div 4) + 4) s = take 4 s @ take (4 * k + 4) (drop 4 s)"
    unfolding Suc.hyps(2) [symmetric]
    by (simp add: take_add [symmetric] add.commute)
  have "Base64_chunks s out = Base64_chunks (take 4 s @ drop 4 s) out" by simp
  also have "\<dots> = Base64_body (Base64_chunks (drop 4 s)) out 4 (Base64_scan (take 4 s) 0 0)"
    using Base64_chunks_step [OF len, of "drop 4 s" out] p Suc.prems by simp
  also have "\<dots> = Base64_chunks (take 4 s @ take (4 * k + 4) (drop 4 s)) out"
    using Base64_chunks_step [OF len, of "take (4 * k + 4) (drop 4 s)" out] p Suc.prems
    by (simp add: ih)
  finally show ?case unfolding split .
qed

lemma Base64_pad_then_symbol:
  assumes "p < q" and "q < length s" and "q div 4 = p div 4"
    and "s ! p = CHR ''=''" and "s ! q \<noteq> CHR ''=''" and "CHR ''='' \<notin> set (take p s)"
  shows "Base64_chunks s out = Throws (Base64_Error Base64_STRING_PARSE_ERROR)"
proof -
  define k where "k = p div 4"
  define pre where "pre = take (4 * k) s"
  define t where "t = drop (4 * k) s"
  have s: "s = pre @ t" by (simp add: pre_def t_def)
  have kp: "4 * k \<le> p" "p < 4 * k + 4" "4 * k \<le> q" "q < 4 * k + 4"
    using assms(3) by (simp_all add: k_def)
  with assms have lp: "length pre = 4 * k" by (simp add: pre_def)
  then have m: "length pre mod 4 = 0" by simp
  have "set pre \<subseteq> set (take p s)"
    unfolding pre_def using kp(1) by (metis set_take_subset_set_take)
  with assms(6) have np: "CHR ''='' \<notin> set pre" by auto
  have tp: "take 4 t ! (p - 4 * k) = CHR ''=''" and tq: "take 4 t ! (q - 4 * k) \<noteq> CHR ''=''"
    using kp assms by (simp_all add: t_def)
  have lt: "q - 4 * k < length (take 4 t)" and pq: "p - 4 * k < q - 4 * k"
    using kp assms(1,2) by (auto simp add: t_def)
  have sc: "Base64_scan (take 4 t) 0 0 = Throws (Base64_Error Base64_STRING_PARSE_ERROR)"
    by (rule Base64_scan_pad_then_other [OF pq lt tp tq])
  from lt have "t \<noteq> []" by auto
  then have "Base64_chunks t out' = Throws (Base64_Error Base64_STRING_PARSE_ERROR)" for out'
    by (subst Base64_chunks_unfold) (simp add: sc Base64_body_def)
  with Base64_chunks_no_pad [OF m np, of t out] show ?thesis
    unfolding s by auto
qed

section \<open>Base32: \<^verbatim>\<open>DecodeStringToString\<close>\<close>

text \<open>
  The 32 value cases of \<^verbatim>\<open>switch(*jter)\<close> in the order of the source (\<^verbatim>\<open>'A'\<close> is
  \<^verbatim>\<open>0B00000\<close>, \<^verbatim>\<open>'7'\<close> is \<^verbatim>\<open>0B11111\<close>): the value of a character is its position.
\<close>

definition Base32_alphabet :: string where
  "Base32_alphabet = ''ABCDEFGHIJKLMNOPQRSTUVWXYZ234567''"

definition Base32_value :: "char \<Rightarrow> 40 word option" where
  "Base32_value c =
    map_option of_nat (map_of (zip Base32_alphabet [0 ..< length Base32_alphabet]) c)"

text \<open>
  One round of the inner loop's body after \<^verbatim>\<open>loopCounter += 1\<close> and the shift: the
  \<^verbatim>\<open>paddingCounter > 0 and *jter != '='\<close> test, then the \<^verbatim>\<open>switch\<close> (a value case, the
  \<^verbatim>\<open>'='\<close> case, \<^verbatim>\<open>default\<close>).  The argument \<open>bitset\<close> is already shifted.
\<close>

definition Base32_symbol :: "nat \<Rightarrow> 40 word \<Rightarrow> char \<Rightarrow> (nat \<times> 40 word) outcome" where
  "Base32_symbol paddingCounter bitset c =
    (if paddingCounter > 0 \<and> c \<noteq> CHR ''='' then Throws (Base32_Error Base32_STRING_PARSE_ERROR)
     else
       (case Base32_value c of
          Some v \<Rightarrow> Returns (paddingCounter, bitset OR v)
        | None \<Rightarrow>
            (if c = CHR ''='' then Returns (paddingCounter + 1, bitset)
             else Throws (Base32_Error Base32_STRING_PARSE_ERROR))))"

text \<open>
  The inner loop \<^verbatim>\<open>for(jter(iter); jter != cend; ++jter)\<close>; it leaves with \<^verbatim>\<open>iter = jter\<close>
  at the end of the string or after the eighth symbol.  The result is \<open>iter\<close>,
  \<open>paddingCounter\<close>, \<open>loopCounter\<close> and \<open>bitset\<close>.
\<close>

function Base32_group ::
  "string \<Rightarrow> nat \<Rightarrow> nat \<Rightarrow> nat \<Rightarrow> nat \<Rightarrow> 40 word \<Rightarrow> (nat \<times> nat \<times> nat \<times> 40 word) outcome" where
  "Base32_group s iter jter paddingCounter loopCounter bitset =
    (if jter < length s then
       (case Base32_symbol paddingCounter (push_bit 5 bitset) (s ! jter) of
          Returns (paddingCounter', bitset') \<Rightarrow>
            (if jter + 1 = length s \<or> jter + 1 = iter + 8
             then Returns (jter, paddingCounter', loopCounter + 1, bitset')
             else Base32_group s iter (jter + 1) paddingCounter' (loopCounter + 1) bitset')
        | Throws e \<Rightarrow> Throws e
        | Terminated \<Rightarrow> Terminated
        | Undefined_Read \<Rightarrow> Undefined_Read)
     else Returns (iter, paddingCounter, loopCounter, bitset))"
  by pat_completeness auto
termination
  by (relation "measure (\<lambda>(s, iter, jter, paddingCounter, loopCounter, bitset). length s - jter)")
     auto

declare Base32_group.simps [simp del]

text \<open>
  \<^verbatim>\<open>switch(loopCounter)\<close>: a short final group is shifted into place and gets its missing
  padding counted.
\<close>

definition Base32_tail :: "nat \<Rightarrow> nat \<Rightarrow> 40 word \<Rightarrow> (nat \<times> 40 word) outcome" where
  "Base32_tail loopCounter paddingCounter bitset =
    (if loopCounter = 8 then Returns (paddingCounter, bitset)
     else if loopCounter = 7 then
       (if paddingCounter = 5 then Returns (6, push_bit 5 bitset)
        else if paddingCounter = 3 then Returns (4, push_bit 5 bitset)
        else if paddingCounter = 2 then Returns (3, push_bit 5 bitset)
        else if paddingCounter = 0 then Returns (1, push_bit 5 bitset)
        else Throws (Base32_Error Base32_STRING_PARSE_ERROR))
     else if loopCounter = 6 then
       (if paddingCounter = 4 then Returns (6, push_bit 10 bitset)
        else if paddingCounter = 2 then Returns (4, push_bit 10 bitset)
        else if paddingCounter = 1 then Returns (3, push_bit 10 bitset)
        else Throws (Base32_Error Base32_STRING_PARSE_ERROR))
     else if loopCounter = 5 then
       (if paddingCounter = 3 then Returns (6, push_bit 15 bitset)
        else if paddingCounter = 1 then Returns (4, push_bit 15 bitset)
        else if paddingCounter = 0 then Returns (3, push_bit 15 bitset)
        else Throws (Base32_Error Base32_STRING_PARSE_ERROR))
     else if loopCounter = 4 then
       (if paddingCounter = 2 then Returns (6, push_bit 20 bitset)
        else if paddingCounter = 0 then Returns (4, push_bit 20 bitset)
        else Throws (Base32_Error Base32_STRING_PARSE_ERROR))
     else if loopCounter = 3 then
       (if paddingCounter = 1 then Returns (6, push_bit 25 bitset)
        else Throws (Base32_Error Base32_STRING_PARSE_ERROR))
     else if loopCounter = 2 then
       (if paddingCounter = 0 then Returns (6, push_bit 30 bitset)
        else Throws (Base32_Error Base32_STRING_PARSE_ERROR))
     else if loopCounter = 1 then Throws (Base32_Error Base32_STRING_PARSE_ERROR)
     else Terminated)"

text \<open>\<^verbatim>\<open>switch(paddingCounter)\<close>: the characters appended for one group.\<close>

definition Base32_bytes :: "nat \<Rightarrow> 40 word \<Rightarrow> string outcome" where
  "Base32_bytes paddingCounter bitset =
    (if paddingCounter = 0 then
       Returns [to_char (drop_bit 32 bitset), to_char (drop_bit 24 bitset),
                to_char (drop_bit 16 bitset), to_char (drop_bit 8 bitset), to_char bitset]
     else if paddingCounter = 1 then
       Returns [to_char (drop_bit 32 bitset), to_char (drop_bit 24 bitset),
                to_char (drop_bit 16 bitset), to_char (drop_bit 8 bitset)]
     else if paddingCounter = 3 then
       Returns [to_char (drop_bit 32 bitset), to_char (drop_bit 24 bitset),
                to_char (drop_bit 16 bitset)]
     else if paddingCounter = 4 then
       Returns [to_char (drop_bit 32 bitset), to_char (drop_bit 24 bitset)]
     else if paddingCounter = 6 then Returns [to_char (drop_bit 32 bitset)]
     else Throws (Base32_Error Base32_STRING_PARSE_ERROR))"

text \<open>
  Everything in the outer loop's body after the inner loop: the two switches and the
  \<^verbatim>\<open>if(paddingCounter > 0) break\<close>.  The result is the text so far and whether the outer
  loop goes on.
\<close>

definition Base32_emit :: "string \<Rightarrow> nat \<Rightarrow> nat \<Rightarrow> 40 word \<Rightarrow> (string \<times> bool) outcome" where
  "Base32_emit decodedString loopCounter paddingCounter bitset =
    (case Base32_tail loopCounter paddingCounter bitset of
       Returns (paddingCounter', bitset') \<Rightarrow>
         (case Base32_bytes paddingCounter' bitset' of
            Returns bs \<Rightarrow> Returns (decodedString @ bs, \<not> paddingCounter' > 0)
          | Throws e \<Rightarrow> Throws e
          | Terminated \<Rightarrow> Terminated
          | Undefined_Read \<Rightarrow> Undefined_Read)
     | Throws e \<Rightarrow> Throws e
     | Terminated \<Rightarrow> Terminated
     | Undefined_Read \<Rightarrow> Undefined_Read)"

lemma Base32_group_iter_mono:
  "Base32_group s iter jter paddingCounter loopCounter bitset = Returns (iter', r)
   \<Longrightarrow> iter \<le> jter \<Longrightarrow> iter \<le> iter'"
proof (induction s iter jter paddingCounter loopCounter bitset rule: Base32_group.induct)
  case (1 s iter jter paddingCounter loopCounter bitset)
  note eq = "1.prems"(1) [unfolded Base32_group.simps [of s iter jter paddingCounter loopCounter bitset]]
  show ?case
  proof (cases "jter < length s")
    case False
    with eq show ?thesis by simp
  next
    case True
    with eq "1.IH" "1.prems"(2) show ?thesis
      by (cases "Base32_symbol paddingCounter (push_bit 5 bitset) (s ! jter)")
         (auto split: if_splits)
  qed
qed

function Base32_loop :: "string \<Rightarrow> nat \<Rightarrow> string \<Rightarrow> string outcome" where
  "Base32_loop s iter decodedString =
    (if iter < length s then
       (case Base32_group s iter iter 0 0 0 of
          Returns (iter', paddingCounter, loopCounter, bitset) \<Rightarrow>
            (case Base32_emit decodedString loopCounter paddingCounter bitset of
               Returns (decodedString', continue) \<Rightarrow>
                 (if continue then Base32_loop s (iter' + 1) decodedString'
                  else Returns decodedString')
             | Throws e \<Rightarrow> Throws e
             | Terminated \<Rightarrow> Terminated
             | Undefined_Read \<Rightarrow> Undefined_Read)
        | Throws e \<Rightarrow> Throws e
        | Terminated \<Rightarrow> Terminated
        | Undefined_Read \<Rightarrow> Undefined_Read)
     else Returns decodedString)"
  by pat_completeness auto
termination
proof (relation "measure (\<lambda>(s, iter, decodedString). length s - iter)", goal_cases)
  case 1
  show ?case by simp
next
  case (2 s iter decodedString x1 iter' y paddingCounter z loopCounter bitset x1a decodedString' continue)
  then have "Base32_group s iter iter 0 0 0 = Returns (iter', y)"
    by simp
  then have "iter \<le> iter'"
    by (rule Base32_group_iter_mono) simp
  with 2 show ?case by simp
qed

declare Base32_loop.simps [simp del]

text \<open>
  \<^verbatim>\<open>Base32::DecodeStringToString\<close>.  As for Base16, the \<^verbatim>\<open>reserve\<close> asks for less than the
  input's own size (five eighths, rounded up to a group) and is not modelled.
\<close>

definition Base32_DecodeStringToString :: "string \<Rightarrow> string outcome" where
  "Base32_DecodeStringToString encodedString = Base32_loop encodedString 0 []"

subsection \<open>Base32 decoding group by group\<close>

text \<open>
  As for Base64, with blocks of eight characters: \<open>Base32_scan\<close> runs the inner loop's body
  over one block, \<open>Base32_chunks\<close> is the outer loop on the rest of the string.
\<close>

fun Base32_scan :: "string \<Rightarrow> nat \<Rightarrow> 40 word \<Rightarrow> (nat \<times> 40 word) outcome" where
  "Base32_scan [] paddingCounter bitset = Returns (paddingCounter, bitset)"
| "Base32_scan (c # cs) paddingCounter bitset =
    (case Base32_symbol paddingCounter (push_bit 5 bitset) c of
       Returns (paddingCounter', bitset') \<Rightarrow> Base32_scan cs paddingCounter' bitset'
     | Throws e \<Rightarrow> Throws e
     | Terminated \<Rightarrow> Terminated
     | Undefined_Read \<Rightarrow> Undefined_Read)"

function Base32_chunks :: "string \<Rightarrow> string \<Rightarrow> string outcome" where
  "Base32_chunks s out =
    (if s = [] then Returns out
     else
       (case Base32_scan (take 8 s) 0 0 of
          Returns (paddingCounter, bitset) \<Rightarrow>
            (case Base32_emit out (length (take 8 s)) paddingCounter bitset of
               Returns (out', continue) \<Rightarrow>
                 (if continue then Base32_chunks (drop 8 s) out' else Returns out')
             | Throws e \<Rightarrow> Throws e
             | Terminated \<Rightarrow> Terminated
             | Undefined_Read \<Rightarrow> Undefined_Read)
        | Throws e \<Rightarrow> Throws e
        | Terminated \<Rightarrow> Terminated
        | Undefined_Read \<Rightarrow> Undefined_Read))"
  by pat_completeness auto
termination
  by (relation "measure (\<lambda>(s, out). length s)") auto

declare Base32_chunks.simps [simp del]

definition Base32_leave ::
  "nat \<Rightarrow> nat \<Rightarrow> (nat \<times> 40 word) outcome \<Rightarrow> (nat \<times> nat \<times> nat \<times> 40 word) outcome" where
  "Base32_leave iter' loopCounter r =
    (case r of
       Returns (paddingCounter, bitset) \<Rightarrow> Returns (iter', paddingCounter, loopCounter, bitset)
     | Throws e \<Rightarrow> Throws e
     | Terminated \<Rightarrow> Terminated
     | Undefined_Read \<Rightarrow> Undefined_Read)"

lemma Base32_group_scan:
  "iter \<le> jter \<Longrightarrow> jter < iter + 8 \<Longrightarrow> jter < length s \<Longrightarrow>
   Base32_group s iter jter paddingCounter loopCounter bitset =
     Base32_leave (min (iter + 8) (length s) - 1)
       (loopCounter + (min (iter + 8) (length s) - jter))
       (Base32_scan (take (iter + 8 - jter) (drop jter s)) paddingCounter bitset)"
proof (induction s iter jter paddingCounter loopCounter bitset rule: Base32_group.induct)
  case (1 s iter jter paddingCounter loopCounter bitset)
  from "1.prems" have "iter + 8 - jter = Suc (iter + 8 - (jter + 1))" by simp
  moreover from "1.prems" have "drop jter s = s ! jter # drop (jter + 1) s"
    by (simp add: Cons_nth_drop_Suc)
  ultimately have dr: "take (iter + 8 - jter) (drop jter s) =
      s ! jter # take (iter + 8 - (jter + 1)) (drop (jter + 1) s)"
    by (simp only: take_Suc_Cons)
  show ?case
  proof (cases "Base32_symbol paddingCounter (push_bit 5 bitset) (s ! jter)")
    case (Returns r)
    obtain pc' bits' where r: "r = (pc', bits')" by (cases r)
    show ?thesis
    proof (cases "jter + 1 = length s \<or> jter + 1 = iter + 8")
      case True
      then have "take (iter + 8 - (jter + 1)) (drop (jter + 1) s) = []" by auto
      with True Returns r "1.prems" show ?thesis
        by (subst Base32_group.simps) (auto simp add: dr min_def Base32_leave_def)
    next
      case False
      with "1.prems" have ih: "Base32_group s iter (jter + 1) pc' (loopCounter + 1) bits' =
          Base32_leave (min (iter + 8) (length s) - 1)
            ((loopCounter + 1) + (min (iter + 8) (length s) - (jter + 1)))
            (Base32_scan (take (iter + 8 - (jter + 1)) (drop (jter + 1) s)) pc' bits')"
        using "1.IH" [of "(pc', bits')" pc' bits'] Returns r by simp
      from False "1.prems"
      have lc: "loopCounter + (min (iter + 8) (length s) - jter) =
          (loopCounter + 1) + (min (iter + 8) (length s) - (jter + 1))"
        by (auto simp add: min_def)
      have "Base32_group s iter (jter + 1) pc' (loopCounter + 1) bits' =
          Base32_leave (min (iter + 8) (length s) - 1)
            (loopCounter + (min (iter + 8) (length s) - jter))
            (Base32_scan (take (iter + 8 - (jter + 1)) (drop (jter + 1) s)) pc' bits')"
        unfolding lc by (rule ih)
      moreover have "Base32_group s iter jter paddingCounter loopCounter bitset =
          Base32_group s iter (jter + 1) pc' (loopCounter + 1) bits'"
        using False Returns r "1.prems" by (subst Base32_group.simps) simp
      moreover have "Base32_scan (take (iter + 8 - jter) (drop jter s)) paddingCounter bitset =
          Base32_scan (take (iter + 8 - (jter + 1)) (drop (jter + 1) s)) pc' bits'"
        using Returns r by (simp add: dr)
      ultimately show ?thesis by simp
    qed
  next
    case (Throws e)
    with "1.prems" show ?thesis by (subst Base32_group.simps) (simp add: dr Base32_leave_def)
  next
    case Terminated
    with "1.prems" show ?thesis by (subst Base32_group.simps) (simp add: dr Base32_leave_def)
  next
    case Undefined_Read
    with "1.prems" show ?thesis by (subst Base32_group.simps) (simp add: dr Base32_leave_def)
  qed
qed

definition Base32_body ::
  "(string \<Rightarrow> string outcome) \<Rightarrow> string \<Rightarrow> nat \<Rightarrow> (nat \<times> 40 word) outcome \<Rightarrow> string outcome" where
  "Base32_body k out loopCounter r =
    (case r of
       Returns (paddingCounter, bitset) \<Rightarrow>
         (case Base32_emit out loopCounter paddingCounter bitset of
            Returns (out', continue) \<Rightarrow> (if continue then k out' else Returns out')
          | Throws e \<Rightarrow> Throws e
          | Terminated \<Rightarrow> Terminated
          | Undefined_Read \<Rightarrow> Undefined_Read)
     | Throws e \<Rightarrow> Throws e
     | Terminated \<Rightarrow> Terminated
     | Undefined_Read \<Rightarrow> Undefined_Read)"

lemma Base32_chunks_unfold:
  "Base32_chunks s out =
    (if s = [] then Returns out
     else Base32_body (Base32_chunks (drop 8 s)) out (length (take 8 s))
            (Base32_scan (take 8 s) 0 0))"
  unfolding Base32_body_def by (rule Base32_chunks.simps)

lemma Base32_loop_unfold:
  assumes "iter < length s"
  shows "Base32_loop s iter out =
    Base32_body (Base32_loop s (min (iter + 8) (length s))) out (length (take 8 (drop iter s)))
      (Base32_scan (take 8 (drop iter s)) 0 0)"
proof -
  have len: "min (iter + 8) (length s) - iter = length (take 8 (drop iter s))"
    by (auto simp add: min_def)
  have g: "Base32_group s iter iter 0 0 0 =
      Base32_leave (min (iter + 8) (length s) - 1) (length (take 8 (drop iter s)))
        (Base32_scan (take 8 (drop iter s)) 0 0)"
    using Base32_group_scan [of iter iter s 0 0 0] assms unfolding len [symmetric] by simp
  have next_pos: "min (iter + 8) (length s) - 1 + 1 = min (iter + 8) (length s)"
    using assms by (auto simp add: min_def)
  show ?thesis
  proof (cases "Base32_scan (take 8 (drop iter s)) 0 0")
    case (Returns r)
    obtain pc bits where r: "r = (pc, bits)" by (cases r)
    have "Base32_loop s iter out =
      (case Base32_emit out (length (take 8 (drop iter s))) pc bits of
         Returns (out', continue) \<Rightarrow>
           (if continue then Base32_loop s (min (iter + 8) (length s) - 1 + 1) out'
            else Returns out')
       | Throws e \<Rightarrow> Throws e
       | Terminated \<Rightarrow> Terminated
       | Undefined_Read \<Rightarrow> Undefined_Read)"
      using assms by (subst Base32_loop.simps) (simp add: g Returns r Base32_leave_def split: outcome.splits)
    then show ?thesis
      unfolding next_pos by (simp add: Base32_body_def Returns r)
  next
    case (Throws e)
    with assms show ?thesis
      by (subst Base32_loop.simps) (simp add: g Base32_leave_def Base32_body_def)
  next
    case Terminated
    with assms show ?thesis
      by (subst Base32_loop.simps) (simp add: g Base32_leave_def Base32_body_def)
  next
    case Undefined_Read
    with assms show ?thesis
      by (subst Base32_loop.simps) (simp add: g Base32_leave_def Base32_body_def)
  qed
qed

lemma Base32_loop_chunks:
  "Base32_loop s iter out = Base32_chunks (drop iter s) out"
proof (induction "length s - iter" arbitrary: iter out rule: less_induct)
  case less
  show ?case
  proof (cases "iter < length s")
    case False
    then show ?thesis by (subst Base32_loop.simps, subst Base32_chunks.simps) simp
  next
    case True
    then have ne: "drop iter s \<noteq> []" by simp
    have dd: "drop 8 (drop iter s) = drop (min (iter + 8) (length s)) s"
      by (auto simp add: min_def add.commute)
    from True have "length s - min (iter + 8) (length s) < length s - iter"
      by (auto simp add: min_def)
    then have "Base32_loop s (min (iter + 8) (length s)) = Base32_chunks (drop 8 (drop iter s))"
      unfolding dd by (intro ext less.hyps)
    then show ?thesis
      using True by (simp add: Base32_loop_unfold [OF True] Base32_chunks_unfold [of "drop iter s"])
  qed
qed

lemma Base32_decode_chunks: "Base32_DecodeStringToString s = Base32_chunks s []"
  by (simp add: Base32_DecodeStringToString_def Base32_loop_chunks)

lemma Base32_value_pad: "Base32_value (CHR ''='') = None"
  by code_simp

lemma Base32_symbol_pad:
  "Base32_symbol paddingCounter bitset (CHR ''='') = Returns (paddingCounter + 1, bitset)"
  by (simp add: Base32_symbol_def Base32_value_pad)

lemma Base32_symbol_other:
  "c \<noteq> CHR ''='' \<Longrightarrow> Base32_symbol paddingCounter bitset c =
    (if paddingCounter > 0 then Throws (Base32_Error Base32_STRING_PARSE_ERROR)
     else (case Base32_value c of
             Some v \<Rightarrow> Returns (0, bitset OR v)
           | None \<Rightarrow> Throws (Base32_Error Base32_STRING_PARSE_ERROR)))"
  by (simp add: Base32_symbol_def split: option.splits)

lemma Base32_symbol_cases:
  "Base32_symbol paddingCounter bitset c = Throws (Base32_Error Base32_STRING_PARSE_ERROR) \<or>
   (\<exists>bitset'. Base32_symbol paddingCounter bitset c =
      Returns (if c = CHR ''='' then paddingCounter + 1 else paddingCounter, bitset'))"
  by (cases "c = CHR ''=''")
     (auto simp add: Base32_symbol_pad Base32_symbol_other split: option.splits)

lemma Base32_scan_cases:
  "Base32_scan cs paddingCounter bitset = Throws (Base32_Error Base32_STRING_PARSE_ERROR) \<or>
   (\<exists>bitset'. Base32_scan cs paddingCounter bitset =
      Returns (paddingCounter + length (filter (\<lambda>c. c = CHR ''='') cs), bitset'))"
proof (induction cs arbitrary: paddingCounter bitset)
  case Nil
  show ?case by simp
next
  case (Cons c cs)
  from Base32_symbol_cases [of paddingCounter "push_bit 5 bitset" c] show ?case
  proof (elim disjE exE)
    assume "Base32_symbol paddingCounter (push_bit 5 bitset) c =
      Throws (Base32_Error Base32_STRING_PARSE_ERROR)"
    then show ?thesis by simp
  next
    fix bitset'
    assume sym: "Base32_symbol paddingCounter (push_bit 5 bitset) c =
      Returns (if c = CHR ''='' then paddingCounter + 1 else paddingCounter, bitset')"
    from Cons.IH [of "if c = CHR ''='' then paddingCounter + 1 else paddingCounter" bitset'] sym
    show ?thesis by auto
  qed
qed

lemma Base32_scan_no_pad:
  assumes "CHR ''='' \<notin> set cs"
  shows "Base32_scan cs 0 bitset = Throws (Base32_Error Base32_STRING_PARSE_ERROR) \<or>
         (\<exists>bitset'. Base32_scan cs 0 bitset = Returns (0, bitset'))"
proof -
  from assms have "filter (\<lambda>c. c = CHR ''='') cs = []"
    by (induction cs) auto
  with Base32_scan_cases [of cs 0 bitset] show ?thesis by simp
qed

lemma Base32_scan_valid:
  "\<forall>c \<in> set cs. Base32_value c \<noteq> None \<Longrightarrow> \<exists>bitset'. Base32_scan cs 0 bitset = Returns (0, bitset')"
proof (induction cs arbitrary: bitset)
  case Nil
  show ?case by simp
next
  case (Cons c cs)
  then obtain v where v: "Base32_value c = Some v" by auto
  then have "c \<noteq> CHR ''=''" using Base32_value_pad by auto
  with v have "Base32_symbol 0 (push_bit 5 bitset) c = Returns (0, push_bit 5 bitset OR v)"
    by (simp add: Base32_symbol_other)
  with Cons show ?case by simp
qed

lemma Base32_scan_after_pad:
  "0 < paddingCounter \<Longrightarrow> j < length cs \<Longrightarrow> cs ! j \<noteq> CHR ''='' \<Longrightarrow>
   Base32_scan cs paddingCounter bitset = Throws (Base32_Error Base32_STRING_PARSE_ERROR)"
proof (induction cs arbitrary: j paddingCounter bitset)
  case Nil
  then show ?case by simp
next
  case (Cons c cs)
  show ?case
  proof (cases "c = CHR ''=''")
    case True
    with Cons.prems obtain j' where j': "j = Suc j'" by (cases j) auto
    with Cons.prems have "Base32_scan cs (paddingCounter + 1) (push_bit 5 bitset) =
        Throws (Base32_Error Base32_STRING_PARSE_ERROR)"
      by (intro Cons.IH [of _ j']) auto
    with True show ?thesis by (simp add: Base32_symbol_pad)
  next
    case False
    with Cons.prems show ?thesis by (simp add: Base32_symbol_other)
  qed
qed

lemma Base32_scan_pad_then_other:
  "i < j \<Longrightarrow> j < length cs \<Longrightarrow> cs ! i = CHR ''='' \<Longrightarrow> cs ! j \<noteq> CHR ''='' \<Longrightarrow>
   Base32_scan cs paddingCounter bitset = Throws (Base32_Error Base32_STRING_PARSE_ERROR)"
proof (induction cs arbitrary: i j paddingCounter bitset)
  case Nil
  then show ?case by simp
next
  case (Cons c cs)
  from Cons.prems obtain j' where j': "j = Suc j'" by (cases j) auto
  show ?case
  proof (cases i)
    case 0
    with Cons.prems j' have "Base32_scan cs (paddingCounter + 1) (push_bit 5 bitset) =
        Throws (Base32_Error Base32_STRING_PARSE_ERROR)"
      by (intro Base32_scan_after_pad [of _ j']) auto
    with 0 Cons.prems show ?thesis by (simp add: Base32_symbol_pad)
  next
    case (Suc i')
    from Base32_symbol_cases [of paddingCounter "push_bit 5 bitset" c] show ?thesis
    proof (elim disjE exE)
      assume "Base32_symbol paddingCounter (push_bit 5 bitset) c =
        Throws (Base32_Error Base32_STRING_PARSE_ERROR)"
      then show ?thesis by simp
    next
      fix bitset'
      assume sym: "Base32_symbol paddingCounter (push_bit 5 bitset) c =
        Returns (if c = CHR ''='' then paddingCounter + 1 else paddingCounter, bitset')"
      from Cons.prems Suc j'
      have "Base32_scan cs (if c = CHR ''='' then paddingCounter + 1 else paddingCounter) bitset' =
          Throws (Base32_Error Base32_STRING_PARSE_ERROR)"
        by (intro Cons.IH [of i' j']) auto
      with sym show ?thesis by simp
    qed
  qed
qed

lemma div8_step: "8 \<le> (n::nat) \<Longrightarrow> (n - 8) div 8 + 1 = n div 8"
  by (simp add: le_div_geq)

lemma mod8_step: "(n::nat) mod 8 = 0 \<Longrightarrow> (n - 8) mod 8 = 0"
  by (cases "8 \<le> n") (simp_all add: le_mod_geq)

lemma Base32_emit_full:
  "Base32_emit out 8 0 bitset =
    Returns (out @ [to_char (drop_bit 32 bitset), to_char (drop_bit 24 bitset), to_char (drop_bit 16 bitset), to_char (drop_bit 8 bitset), to_char bitset], True)"
  by (simp add: Base32_emit_def Base32_tail_def Base32_bytes_def)

lemma Base32_tail_pad:
  "Base32_tail loopCounter paddingCounter bitset = Returns (paddingCounter', bitset') \<Longrightarrow>
   0 < paddingCounter \<or> loopCounter \<noteq> 8 \<Longrightarrow> 0 < paddingCounter'"
  unfolding Base32_tail_def by (elim disjE; simp split: if_splits; fastforce)

lemma Base32_emit_continue:
  "Base32_emit out loopCounter paddingCounter bitset = Returns (out', continue) \<Longrightarrow>
   \<exists>paddingCounter' bitset'. Base32_tail loopCounter paddingCounter bitset = Returns (paddingCounter', bitset')
     \<and> continue = (\<not> 0 < paddingCounter')"
  unfolding Base32_emit_def by (simp split: outcome.splits prod.splits) 

lemma Base32_emit_stops:
  "Base32_emit out loopCounter paddingCounter bitset = Returns (out', continue) \<Longrightarrow>
   0 < paddingCounter \<or> loopCounter \<noteq> 8 \<Longrightarrow> \<not> continue"
  using Base32_emit_continue Base32_tail_pad by blast

lemma Base32_chunks_step:
  assumes "8 \<le> length pre"
  shows "Base32_chunks (pre @ t) out =
    Base32_body (Base32_chunks (drop 8 pre @ t)) out 8 (Base32_scan (take 8 pre) 0 0)"
proof -
  from assms have "pre @ t \<noteq> []" by auto
  moreover from assms have "take 8 (pre @ t) = take 8 pre" by simp
  moreover from assms have "drop 8 (pre @ t) = drop 8 pre @ t" by simp
  moreover from assms have "length (take 8 pre) = 8" by simp
  ultimately show ?thesis
    by (subst Base32_chunks_unfold) (simp only: if_False)
qed

lemma Base32_chunks_append_cong:
  assumes same: "\<And>out. Base32_chunks t1 out = Base32_chunks t2 out"
  shows "length pre mod 8 = 0 \<Longrightarrow> Base32_chunks (pre @ t1) out = Base32_chunks (pre @ t2) out"
proof (induction "length pre" arbitrary: pre out rule: less_induct)
  case less
  show ?case
  proof (cases "pre = []")
    case True
    with same show ?thesis by simp
  next
    case False
    with less.prems have len: "8 \<le> length pre" by (cases "length pre < 8") auto
    then have "length (drop 8 pre) < length pre" and "length (drop 8 pre) mod 8 = 0"
      using less.prems by (simp_all add: mod8_step)
    then have "Base32_chunks (drop 8 pre @ t1) = Base32_chunks (drop 8 pre @ t2)"
      by (intro ext less.hyps)
    then show ?thesis by (simp add: Base32_chunks_step [OF len])
  qed
qed

lemma Base32_chunks_no_pad:
  "length pre mod 8 = 0 \<Longrightarrow> CHR ''='' \<notin> set pre \<Longrightarrow>
   Base32_chunks (pre @ t) out = Throws (Base32_Error Base32_STRING_PARSE_ERROR) \<or>
   (\<exists>out'. length out' = length out + 5 * (length pre div 8) \<and>
      Base32_chunks (pre @ t) out = Base32_chunks t out')"
proof (induction "length pre" arbitrary: pre out rule: less_induct)
  case less
  show ?case
  proof (cases "pre = []")
    case True
    then show ?thesis by auto
  next
    case False
    with less.prems have len: "8 \<le> length pre" by (cases "length pre < 8") auto
    then have shorter: "length (drop 8 pre) < length pre" and m: "length (drop 8 pre) mod 8 = 0"
      using less.prems by (simp_all add: mod8_step)
    from len have d: "length (drop 8 pre) div 8 + 1 = length pre div 8"
      by (simp add: div8_step)
    from less.prems have "CHR ''='' \<notin> set (take 8 pre)" and np: "CHR ''='' \<notin> set (drop 8 pre)"
      by (auto dest: in_set_takeD in_set_dropD)
    from Base32_scan_no_pad [OF this(1), of 0] show ?thesis
    proof (elim disjE exE)
      assume "Base32_scan (take 8 pre) 0 0 = Throws (Base32_Error Base32_STRING_PARSE_ERROR)"
      then show ?thesis by (simp add: Base32_chunks_step [OF len] Base32_body_def)
    next
      fix bitset'
      assume sc: "Base32_scan (take 8 pre) 0 0 = Returns (0, bitset')"
      let ?out = "out @ [to_char (drop_bit 32 bitset'), to_char (drop_bit 24 bitset'), to_char (drop_bit 16 bitset'), to_char (drop_bit 8 bitset'), to_char bitset']"
      have step: "Base32_chunks (pre @ t) out = Base32_chunks (drop 8 pre @ t) ?out"
        by (simp add: Base32_chunks_step [OF len] Base32_body_def sc Base32_emit_full)
      from less.hyps [OF shorter m np, of ?out] show ?thesis
      proof (elim disjE exE conjE)
        assume "Base32_chunks (drop 8 pre @ t) ?out = Throws (Base32_Error Base32_STRING_PARSE_ERROR)"
        with step show ?thesis by simp
      next
        fix out'
        assume l: "length out' = length ?out + 5 * (length (drop 8 pre) div 8)"
          and c: "Base32_chunks (drop 8 pre @ t) ?out = Base32_chunks t out'"
        from l d have "length out' = length out + 5 * (length pre div 8)" by simp
        with step c show ?thesis by auto
      qed
    qed
  qed
qed

lemma Base32_chunks_valid:
  "length pre mod 8 = 0 \<Longrightarrow> \<forall>c \<in> set pre. Base32_value c \<noteq> None \<Longrightarrow>
   \<exists>out'. length out' = length out + 5 * (length pre div 8) \<and>
      Base32_chunks (pre @ t) out = Base32_chunks t out'"
proof (induction "length pre" arbitrary: pre out rule: less_induct)
  case less
  show ?case
  proof (cases "pre = []")
    case True
    then show ?thesis by auto
  next
    case False
    with less.prems have len: "8 \<le> length pre" by (cases "length pre < 8") auto
    then have shorter: "length (drop 8 pre) < length pre" and m: "length (drop 8 pre) mod 8 = 0"
      using less.prems by (simp_all add: mod8_step)
    from len have d: "length (drop 8 pre) div 8 + 1 = length pre div 8"
      by (simp add: div8_step)
    from less.prems have "\<forall>c \<in> set (take 8 pre). Base32_value c \<noteq> None"
      and v: "\<forall>c \<in> set (drop 8 pre). Base32_value c \<noteq> None"
      by (auto dest: in_set_takeD in_set_dropD)
    from Base32_scan_valid [OF this(1), of 0]
    obtain bitset' where sc: "Base32_scan (take 8 pre) 0 0 = Returns (0, bitset')" by blast
    let ?out = "out @ [to_char (drop_bit 32 bitset'), to_char (drop_bit 24 bitset'), to_char (drop_bit 16 bitset'), to_char (drop_bit 8 bitset'), to_char bitset']"
    have step: "Base32_chunks (pre @ t) out = Base32_chunks (drop 8 pre @ t) ?out"
      by (simp add: Base32_chunks_step [OF len] Base32_body_def sc Base32_emit_full)
    from less.hyps [OF shorter m v, of ?out] obtain out' where
      l: "length out' = length ?out + 5 * (length (drop 8 pre) div 8)" and
      c: "Base32_chunks (drop 8 pre @ t) ?out = Base32_chunks t out'" by blast
    from l d have "length out' = length out + 5 * (length pre div 8)" by simp
    with step c show ?thesis by auto
  qed
qed

lemma Base32_chunks_short:
  "s \<noteq> [] \<Longrightarrow> length s \<le> 8 \<Longrightarrow>
   Base32_chunks s out = Base32_body (Base32_chunks []) out (length s) (Base32_scan s 0 0)"
  by (subst Base32_chunks_unfold) simp

lemma Base32_chunks_Nil: "Base32_chunks [] out = Returns out"
  by (subst Base32_chunks_unfold) simp


lemma Base32_scan_append:
  "Base32_scan (xs @ ys) paddingCounter bitset =
    (case Base32_scan xs paddingCounter bitset of
       Returns (paddingCounter', bitset') \<Rightarrow> Base32_scan ys paddingCounter' bitset'
     | Throws e \<Rightarrow> Throws e
     | Terminated \<Rightarrow> Terminated
     | Undefined_Read \<Rightarrow> Undefined_Read)"
  by (induction xs arbitrary: paddingCounter bitset) (auto split: outcome.splits)

lemma Base32_scan_pads:
  "\<exists>bitset'. Base32_scan (replicate k (CHR ''='')) paddingCounter bitset =
     Returns (paddingCounter + k, bitset')"
proof (induction k arbitrary: paddingCounter bitset)
  case 0
  show ?case by simp
next
  case (Suc k)
  from Suc [of "paddingCounter + 1" "push_bit 5 bitset"] show ?case
    by (auto simp add: Base32_symbol_pad)
qed

lemma Base32_count_pads:
  "CHR ''='' \<notin> set syms \<Longrightarrow>
   length (filter (\<lambda>c. c = CHR ''='') (syms @ replicate k (CHR ''=''))) = k"
  by (induction syms) auto

lemma Base32_bytes_length:
  "Base32_bytes paddingCounter bitset = Returns bs \<Longrightarrow>
   paddingCounter \<in> {0, 1, 3, 4, 6} \<and>
   length bs = (if paddingCounter = 0 then 5 else if paddingCounter = 1 then 4
                else if paddingCounter = 3 then 3 else if paddingCounter = 4 then 2 else 1)"
  unfolding Base32_bytes_def by (simp split: if_splits; fastforce)

lemma Base32_bytes_bad:
  "paddingCounter \<notin> {0, 1, 3, 4, 6} \<Longrightarrow>
   Base32_bytes paddingCounter bitset = Throws (Base32_Error Base32_STRING_PARSE_ERROR)"
  unfolding Base32_bytes_def by simp

lemma Base32_bytes_good:
  "paddingCounter \<in> {0, 1, 3, 4, 6} \<Longrightarrow> \<exists>bs. Base32_bytes paddingCounter bitset = Returns bs"
  unfolding Base32_bytes_def by auto

lemma Base32_emit_group:
  "Base32_emit out 8 paddingCounter bitset =
    (case Base32_bytes paddingCounter bitset of
       Returns bs \<Rightarrow> Returns (out @ bs, \<not> 0 < paddingCounter)
     | Throws e \<Rightarrow> Throws e
     | Terminated \<Rightarrow> Terminated
     | Undefined_Read \<Rightarrow> Undefined_Read)"
  by (simp add: Base32_emit_def Base32_tail_def)

lemma Base32_padded_group:
  assumes "CHR ''='' \<notin> set syms" and "length syms + k = 8" and "0 < k"
  shows "(k \<notin> {0, 1, 3, 4, 6} \<longrightarrow>
            Base32_chunks (syms @ replicate k (CHR ''='')) out =
              Throws (Base32_Error Base32_STRING_PARSE_ERROR)) \<and>
         (\<forall>out'. Base32_chunks (syms @ replicate k (CHR ''='')) out = Returns out' \<longrightarrow>
            k \<in> {0, 1, 3, 4, 6} \<and>
            length out' = length out +
              (if k = 0 then 5 else if k = 1 then 4 else if k = 3 then 3 else if k = 4 then 2 else 1)) \<and>
         ((\<forall>x \<in> set syms. Base32_value x \<noteq> None) \<and> k \<in> {0, 1, 3, 4, 6} \<longrightarrow>
            (\<exists>out'. Base32_chunks (syms @ replicate k (CHR ''='')) out = Returns out'))"
proof -
  let ?g = "syms @ replicate k (CHR ''='')"
  from assms have len: "length ?g = 8" and ne: "?g \<noteq> []" by auto
  from len have tk: "take 8 ?g = ?g" and dp: "drop 8 ?g = []" by simp_all
  have unfold: "Base32_chunks ?g out = Base32_body (Base32_chunks []) out 8 (Base32_scan ?g 0 0)"
    by (subst Base32_chunks_unfold) (simp only: ne if_False tk dp len)
  have cases: "Base32_scan ?g 0 0 = Throws (Base32_Error Base32_STRING_PARSE_ERROR) \<or>
      (\<exists>bitset'. Base32_scan ?g 0 0 = Returns (k, bitset'))"
    using Base32_scan_cases [of ?g 0 0] Base32_count_pads [OF assms(1), of k] by simp
  have stop: "Base32_body (Base32_chunks []) out 8 (Returns (k, bitset')) =
      (case Base32_bytes k bitset' of
         Returns bs \<Rightarrow> Returns (out @ bs)
       | Throws e \<Rightarrow> Throws e
       | Terminated \<Rightarrow> Terminated
       | Undefined_Read \<Rightarrow> Undefined_Read)" for bitset'
    using assms(3) by (simp add: Base32_body_def Base32_emit_group split: outcome.splits)
  have bad: "Base32_chunks ?g out = Throws (Base32_Error Base32_STRING_PARSE_ERROR)"
    if "k \<notin> {0, 1, 3, 4, 6}"
    using cases that unfolding unfold
    by (auto simp add: stop Base32_bytes_bad) (simp add: Base32_body_def)
  have good: "k \<in> {0, 1, 3, 4, 6} \<and> length out' = length out +
        (if k = 0 then 5 else if k = 1 then 4 else if k = 3 then 3 else if k = 4 then 2 else 1)"
    if r: "Base32_chunks ?g out = Returns out'" for out'
  proof -
    from r cases obtain bitset' where sc: "Base32_scan ?g 0 0 = Returns (k, bitset')"
      unfolding unfold by (auto simp add: Base32_body_def)
    with r obtain bs where "Base32_bytes k bitset' = Returns bs" and "out' = out @ bs"
      unfolding unfold by (auto simp add: stop split: outcome.splits)
    with Base32_bytes_length [of k bitset' bs] show ?thesis by simp
  qed
  have runs: "\<exists>out'. Base32_chunks ?g out = Returns out'"
    if v: "(\<forall>x \<in> set syms. Base32_value x \<noteq> None) \<and> k \<in> {0, 1, 3, 4, 6}"
  proof -
    from Base32_scan_valid [of syms 0] v obtain b1 where "Base32_scan syms 0 0 = Returns (0, b1)"
      by blast
    moreover from Base32_scan_pads [of k 0 b1] obtain b2 where
      "Base32_scan (replicate k (CHR ''='')) 0 b1 = Returns (k, b2)" by auto
    ultimately have "Base32_scan ?g 0 0 = Returns (k, b2)"
      by (simp add: Base32_scan_append)
    moreover from v Base32_bytes_good [of k b2] obtain bs where "Base32_bytes k b2 = Returns bs"
      by blast
    ultimately show ?thesis
      unfolding unfold by (simp add: stop)
  qed
  from bad good runs show ?thesis by blast
qed

text \<open>
  C8: for a Base32 input whose final eight-symbol group carries \<open>k\<close> trailing \<open>=\<close>, decoding
  succeeds only if \<open>k\<close> is 0, 1, 3, 4 or 6, and then 5, 4, 3, 2 or 1 bytes come out of that
  group; any other number of pad characters in the full group raises the parse error.  The
  input is \<open>pre\<close>, a whole number of eight-symbol groups without \<open>=\<close>, followed by the final
  group, \<open>8 - k\<close> symbols other than \<open>=\<close> and then \<open>k\<close> times \<open>=\<close>.  With an allowed \<open>k\<close>
  and symbols of the alphabet throughout the decoder does return.
\<close>

theorem Base32_final_group_padding:
  assumes "length pre mod 8 = 0" and "CHR ''='' \<notin> set pre"
    and "CHR ''='' \<notin> set syms" and "length syms + k = 8"
  shows "(k \<notin> {0, 1, 3, 4, 6} \<longrightarrow>
            Base32_DecodeStringToString (pre @ syms @ replicate k (CHR ''='')) =
              Throws (Base32_Error Base32_STRING_PARSE_ERROR)) \<and>
         (\<forall>out. Base32_DecodeStringToString (pre @ syms @ replicate k (CHR ''='')) = Returns out \<longrightarrow>
            k \<in> {0, 1, 3, 4, 6} \<and>
            length out = 5 * (length pre div 8) +
              (if k = 0 then 5 else if k = 1 then 4 else if k = 3 then 3 else if k = 4 then 2 else 1)) \<and>
         ((\<forall>x \<in> set (pre @ syms). Base32_value x \<noteq> None) \<and> k \<in> {0, 1, 3, 4, 6} \<longrightarrow>
            (\<exists>out. Base32_DecodeStringToString (pre @ syms @ replicate k (CHR ''='')) = Returns out))"
proof (cases "k = 0")
  case True
  with assms have m: "length (pre @ syms) mod 8 = 0" and np: "CHR ''='' \<notin> set (pre @ syms)"
    and d: "length (pre @ syms) div 8 = length pre div 8 + 1"
    by (auto simp add: mod_add_left_eq [symmetric])
  have one: "\<forall>out. Base32_DecodeStringToString (pre @ syms) = Returns out \<longrightarrow>
      length out = 5 * (length pre div 8) + 5"
    using Base32_chunks_no_pad [OF m np, of "[]" "[]"] d
    by (auto simp add: Base32_decode_chunks Base32_chunks_Nil)
  have two: "(\<forall>x \<in> set (pre @ syms). Base32_value x \<noteq> None) \<longrightarrow>
      (\<exists>out. Base32_DecodeStringToString (pre @ syms) = Returns out)"
    using Base32_chunks_valid [OF m, of "[]" "[]"]
    by (auto simp add: Base32_decode_chunks Base32_chunks_Nil)
  from one two True show ?thesis by simp
next
  case False
  then have k: "0 < k" by simp
  let ?g = "syms @ replicate k (CHR ''='')"
  note g = Base32_padded_group [OF assms(3,4) k]
  have bad: "Base32_DecodeStringToString (pre @ ?g) = Throws (Base32_Error Base32_STRING_PARSE_ERROR)"
    if "k \<notin> {0, 1, 3, 4, 6}"
    using Base32_chunks_no_pad [OF assms(1,2), of ?g "[]"] g [THEN conjunct1] that
    by (auto simp add: Base32_decode_chunks)
  have good: "k \<in> {0, 1, 3, 4, 6} \<and> length out = 5 * (length pre div 8) +
        (if k = 0 then 5 else if k = 1 then 4 else if k = 3 then 3 else if k = 4 then 2 else 1)"
    if r: "Base32_DecodeStringToString (pre @ ?g) = Returns out" for out
  proof -
    from r Base32_chunks_no_pad [OF assms(1,2), of ?g "[]"]
    obtain out' where l: "length out' = 5 * (length pre div 8)"
      and c: "Base32_chunks ?g out' = Returns out"
      by (auto simp add: Base32_decode_chunks)
    from g [of out', THEN conjunct2, THEN conjunct1] c l show ?thesis by simp
  qed
  have runs: "\<exists>out. Base32_DecodeStringToString (pre @ ?g) = Returns out"
    if v: "(\<forall>x \<in> set (pre @ syms). Base32_value x \<noteq> None) \<and> k \<in> {0, 1, 3, 4, 6}"
  proof -
    from v have "\<forall>x \<in> set pre. Base32_value x \<noteq> None" by auto
    from Base32_chunks_valid [OF assms(1) this, of "[]" ?g]
    obtain out' where "Base32_chunks (pre @ ?g) [] = Base32_chunks ?g out'" by blast
    moreover from g [of out', THEN conjunct2, THEN conjunct2] v
    obtain out where "Base32_chunks ?g out' = Returns out" by auto
    ultimately show ?thesis by (simp add: Base32_decode_chunks)
  qed
  from bad good runs show ?thesis by blast
qed

theorem Base32_final_group_padding_witness:
  "length ''MZXW6YTB'' mod 8 = 0 \<and> CHR ''='' \<notin> set ''MZXW6YTB'' \<and>
   CHR ''='' \<notin> set ''OI'' \<and> length ''OI'' + 6 = 8 \<and>
   Base32_DecodeStringToString ''MZXW6YTBOI======'' = Returns ''foobar'' \<and>
   length ''foobar'' = 5 * (length ''MZXW6YTB'' div 8) + 1 \<and>
   CHR ''='' \<notin> set ''OIAAAA'' \<and> length ''OIAAAA'' + 2 = 8 \<and>
   Base32_DecodeStringToString ''MZXW6YTBOIAAAA=='' = Throws (Base32_Error Base32_STRING_PARSE_ERROR)"
proof -
  have h1: "length ''MZXW6YTB'' mod 8 = 0" by simp
  have h2: "CHR ''='' \<notin> set ''MZXW6YTB''" by simp
  have h3: "CHR ''='' \<notin> set ''OI''" by simp
  have h4: "length ''OI'' + 6 = 8" by simp
  have h5: "CHR ''='' \<notin> set ''OIAAAA''" by simp
  have h6: "length ''OIAAAA'' + 2 = 8" by simp
  have run: "Base32_DecodeStringToString ''MZXW6YTBOI======'' = Returns ''foobar''"
    by code_simp
  have six: "replicate 6 (CHR ''='') = ''======''" and two: "replicate 2 (CHR ''='') = ''==''"
    by (simp_all add: numeral_eq_Suc)
  from Base32_final_group_padding [OF h1 h2 h3 h4] run
  have "length ''foobar'' = 5 * (length ''MZXW6YTB'' div 8) + 1"
    unfolding six by simp
  moreover from Base32_final_group_padding [OF h1 h2 h5 h6]
  have "Base32_DecodeStringToString ''MZXW6YTBOIAAAA=='' =
      Throws (Base32_Error Base32_STRING_PARSE_ERROR)"
    unfolding two by simp
  ultimately show ?thesis using run h1 h2 h3 h5 by simp
qed

subsection \<open>Base32: what happens after a pad character\<close>

lemma Base32_scan_has_pad:
  assumes "CHR ''='' \<in> set cs" and "Base32_scan cs paddingCounter bitset = Returns (paddingCounter', bitset')"
  shows "0 < paddingCounter'"
proof -
  from assms(1) have "filter (\<lambda>c. c = CHR ''='') cs \<noteq> []"
    by (induction cs) auto
  then have "0 < length (filter (\<lambda>c. c = CHR ''='') cs)" by simp
  with Base32_scan_cases [of cs paddingCounter bitset] assms(2) show ?thesis by auto
qed

lemma Base32_body_stops:
  assumes "\<And>paddingCounter bitset. r = Returns (paddingCounter, bitset) \<Longrightarrow> 0 < paddingCounter"
  shows "Base32_body k1 out loopCounter r = Base32_body k2 out loopCounter r"
proof (cases r)
  case (Returns x)
  obtain paddingCounter bitset where x: "x = (paddingCounter, bitset)" by (cases x)
  with Returns assms have "0 < paddingCounter" by simp
  then have "\<not> continue"
    if "Base32_emit out loopCounter paddingCounter bitset = Returns (out', continue)"
    for out' continue
    using Base32_emit_stops [OF that] by simp
  then show ?thesis
    by (auto simp add: Base32_body_def Returns x split: outcome.splits)
qed (simp_all add: Base32_body_def)

lemma Base32_chunks_stop_first:
  assumes "CHR ''='' \<in> set (take 8 s)"
  shows "Base32_chunks s out = Base32_chunks (take 8 s) out"
proof -
  from assms have ne: "s \<noteq> []" by auto
  have "Base32_chunks s out =
      Base32_body (Base32_chunks (drop 8 s)) out (length (take 8 s)) (Base32_scan (take 8 s) 0 0)"
    using ne by (subst Base32_chunks_unfold) (simp only: if_False)
  also have "\<dots> = Base32_body (Base32_chunks (drop 8 (take 8 s))) out (length (take 8 s))
      (Base32_scan (take 8 s) 0 0)"
    by (rule Base32_body_stops) (rule Base32_scan_has_pad [OF assms])
  also have "\<dots> = Base32_chunks (take 8 s) out"
    using ne by (subst Base32_chunks_unfold) simp
  finally show ?thesis .
qed

lemma Base32_chunks_stop:
  "p < length s \<Longrightarrow> s ! p = CHR ''='' \<Longrightarrow>
   Base32_chunks s out = Base32_chunks (take (8 * (p div 8) + 8) s) out"
proof (induction "p div 8" arbitrary: p s out)
  case 0
  then have p: "p < 8" by simp
  with "0.prems" have "take 8 s ! p = CHR ''=''" and "p < length (take 8 s)" by simp_all
  then have "CHR ''='' \<in> set (take 8 s)" by (metis nth_mem)
  from Base32_chunks_stop_first [OF this] "0.hyps" [symmetric] show ?case by simp
next
  case (Suc k)
  then have p: "8 \<le> p" by (cases "p < 8") auto
  with Suc.prems have len: "8 \<le> length (take 8 s)" by simp
  from p Suc.hyps(2) have k: "k = (p - 8) div 8" by (simp add: div8_step [symmetric])
  from p Suc.prems have "p - 8 < length (drop 8 s)" and "drop 8 s ! (p - 8) = CHR ''=''"
    by simp_all
  from Suc.hyps(1) [OF k this] have ih:
    "Base32_chunks (drop 8 s) = Base32_chunks (take (8 * k + 8) (drop 8 s))"
    unfolding k [symmetric] by (intro ext)
  have split: "take (8 * (p div 8) + 8) s = take 8 s @ take (8 * k + 8) (drop 8 s)"
    unfolding Suc.hyps(2) [symmetric]
    by (simp add: take_add [symmetric] add.commute)
  have "Base32_chunks s out = Base32_chunks (take 8 s @ drop 8 s) out" by simp
  also have "\<dots> = Base32_body (Base32_chunks (drop 8 s)) out 8 (Base32_scan (take 8 s) 0 0)"
    using Base32_chunks_step [OF len, of "drop 8 s" out] p Suc.prems by simp
  also have "\<dots> = Base32_chunks (take 8 s @ take (8 * k + 8) (drop 8 s)) out"
    using Base32_chunks_step [OF len, of "take (8 * k + 8) (drop 8 s)" out] p Suc.prems
    by (simp add: ih)
  finally show ?case unfolding split .
qed

lemma Base32_pad_then_symbol:
  assumes "p < q" and "q < length s" and "q div 8 = p div 8"
    and "s ! p = CHR ''=''" and "s ! q \<noteq> CHR ''=''" and "CHR ''='' \<notin> set (take p s)"
  shows "Base32_chunks s out = Throws (Base32_Error Base32_STRING_PARSE_ERROR)"
proof -
  define k where "k = p div 8"
  define pre where "pre = take (8 * k) s"
  define t where "t = drop (8 * k) s"
  have s: "s = pre @ t" by (simp add: pre_def t_def)
  have kp: "8 * k \<le> p" "p < 8 * k + 8" "8 * k \<le> q" "q < 8 * k + 8"
    using assms(3) by (simp_all add: k_def)
  with assms have lp: "length pre = 8 * k" by (simp add: pre_def)
  then have m: "length pre mod 8 = 0" by simp
  have "set pre \<subseteq> set (take p s)"
    unfolding pre_def using kp(1) by (metis set_take_subset_set_take)
  with assms(6) have np: "CHR ''='' \<notin> set pre" by auto
  have tp: "take 8 t ! (p - 8 * k) = CHR ''=''" and tq: "take 8 t ! (q - 8 * k) \<noteq> CHR ''=''"
    using kp assms by (simp_all add: t_def)
  have lt: "q - 8 * k < length (take 8 t)" and pq: "p - 8 * k < q - 8 * k"
    using kp assms(1,2) by (auto simp add: t_def)
  have sc: "Base32_scan (take 8 t) 0 0 = Throws (Base32_Error Base32_STRING_PARSE_ERROR)"
    by (rule Base32_scan_pad_then_other [OF pq lt tp tq])
  from lt have "t \<noteq> []" by auto
  then have "Base32_chunks t out' = Throws (Base32_Error Base32_STRING_PARSE_ERROR)" for out'
    by (subst Base32_chunks_unfold) (simp add: sc Base32_body_def)
  with Base32_chunks_no_pad [OF m np, of t out] show ?thesis
    unfolding s by auto
qed

section \<open>Base64 and Base32: the decoder stops at the first padded group\<close>

text \<open>
  The outer loops end with \<^verbatim>\<open>if(paddingCounter > 0) break\<close>: after a group that holds \<open>=\<close>
  nothing more is read.  So a character that follows a \<open>=\<close> is refused only inside the same
  group.  In \<^verbatim>\<open>QQ==QQ==\<close> the second \<^verbatim>\<open>Q\<close>-group follows two pad characters and the decoder
  returns the byte of the first group; likewise for Base32.
\<close>

theorem pad_then_symbol_accepted:
  "''QQ==QQ=='' ! 2 = CHR ''='' \<and> ''QQ==QQ=='' ! 4 \<noteq> CHR ''='' \<and>
   Base64_DecodeStringToString ''QQ==QQ=='' = Returns ''A'' \<and>
   ''MY======MY======'' ! 2 = CHR ''='' \<and> ''MY======MY======'' ! 8 \<noteq> CHR ''='' \<and>
   Base32_DecodeStringToString ''MY======MY======'' = Returns ''f''"
  by code_simp

text \<open>
  C9, as the code has it: in Base64 (and Base32) decoding, once a \<open>=\<close> has been seen, a later
  character other than \<open>=\<close> in the same four-symbol (eight-symbol) group raises the parse
  error (here \<open>p\<close> is the position of the first \<open>=\<close> of the input and \<open>q\<close> a later position
  of its group); and the decoder reads nothing after the group of a \<open>=\<close>: the input decodes
  as its prefix up to the end of that group does.
\<close>

theorem pad_closes_group:
  "(p < q \<and> q < length s \<and> q div 4 = p div 4 \<and> s ! p = CHR ''='' \<and> s ! q \<noteq> CHR ''='' \<and>
      CHR ''='' \<notin> set (take p s)
      \<longrightarrow> Base64_DecodeStringToString s = Throws (Base64_Error Base64_STRING_PARSE_ERROR)) \<and>
   (p < length s \<and> s ! p = CHR ''=''
      \<longrightarrow> Base64_DecodeStringToString s =
          Base64_DecodeStringToString (take (4 * (p div 4) + 4) s)) \<and>
   (p < q \<and> q < length s \<and> q div 8 = p div 8 \<and> s ! p = CHR ''='' \<and> s ! q \<noteq> CHR ''='' \<and>
      CHR ''='' \<notin> set (take p s)
      \<longrightarrow> Base32_DecodeStringToString s = Throws (Base32_Error Base32_STRING_PARSE_ERROR)) \<and>
   (p < length s \<and> s ! p = CHR ''=''
      \<longrightarrow> Base32_DecodeStringToString s =
          Base32_DecodeStringToString (take (8 * (p div 8) + 8) s))"
  using Base64_pad_then_symbol [of p q s "[]"] Base64_chunks_stop [of p s "[]"]
    Base32_pad_then_symbol [of p q s "[]"] Base32_chunks_stop [of p s "[]"]
  unfolding Base64_decode_chunks Base32_decode_chunks by blast

theorem pad_closes_group_witness:
  "Base64_DecodeStringToString ''QQ=Q'' = Throws (Base64_Error Base64_STRING_PARSE_ERROR) \<and>
   Base64_DecodeStringToString ''QQ==QQ=='' = Base64_DecodeStringToString ''QQ=='' \<and>
   Base32_DecodeStringToString ''MY=A===='' = Throws (Base32_Error Base32_STRING_PARSE_ERROR) \<and>
   Base32_DecodeStringToString ''MY======MY======'' = Base32_DecodeStringToString ''MY======''"
proof -
  have h64: "(2::nat) < 3 \<and> 3 < length ''QQ=Q'' \<and> (3::nat) div 4 = 2 div 4 \<and>
      ''QQ=Q'' ! 2 = CHR ''='' \<and> ''QQ=Q'' ! 3 \<noteq> CHR ''='' \<and> CHR ''='' \<notin> set (take 2 ''QQ=Q'')"
    by simp
  have h32: "(2::nat) < 3 \<and> 3 < length ''MY=A===='' \<and> (3::nat) div 8 = 2 div 8 \<and>
      ''MY=A===='' ! 2 = CHR ''='' \<and> ''MY=A===='' ! 3 \<noteq> CHR ''='' \<and>
      CHR ''='' \<notin> set (take 2 ''MY=A===='')"
    by simp
  have g64: "2 < length ''QQ==QQ=='' \<and> ''QQ==QQ=='' ! 2 = CHR ''=''" by simp
  have g32: "2 < length ''MY======MY======'' \<and> ''MY======MY======'' ! 2 = CHR ''=''" by simp
  have t64: "take (4 * (2 div 4) + 4) ''QQ==QQ=='' = ''QQ==''" by simp
  have t32: "take (8 * (2 div 8) + 8) ''MY======MY======'' = ''MY======''" by simp
  from pad_closes_group [of 2 3 "''QQ=Q''"] h64
  have a: "Base64_DecodeStringToString ''QQ=Q'' = Throws (Base64_Error Base64_STRING_PARSE_ERROR)"
    by blast
  from pad_closes_group [of 2 3 "''QQ==QQ==''"] g64
  have b: "Base64_DecodeStringToString ''QQ==QQ=='' = Base64_DecodeStringToString ''QQ==''"
    unfolding t64 by blast
  from pad_closes_group [of 2 3 "''MY=A====''"] h32
  have c: "Base32_DecodeStringToString ''MY=A===='' = Throws (Base32_Error Base32_STRING_PARSE_ERROR)"
    by blast
  from pad_closes_group [of 2 3 "''MY======MY======''"] g32
  have d: "Base32_DecodeStringToString ''MY======MY======'' = Base32_DecodeStringToString ''MY======''"
    unfolding t32 by blast
  from a b c d show ?thesis by blast
qed

section \<open>ByteBuffer\<close>

text \<open>
  \<^verbatim>\<open>ByteBuffer<ByteType>\<close> has two private members, \<^verbatim>\<open>SizeType _size\<close> and
  \<^verbatim>\<open>std::unique_ptr<ValueType[]> _buffer\<close>; they are the fields \<open>p_size\<close> and \<open>p_buffer\<close>.
  \<^verbatim>\<open>SizeType\<close> is \<^verbatim>\<open>std::size_t\<close>, taken as 64 bits wide.  A null \<^verbatim>\<open>_buffer\<close> is \<open>None\<close>;
  otherwise \<open>p_buffer\<close> holds the bytes of the array it owns.
\<close>

type_synonym SizeType = "64 word"

record ByteBuffer =
  p_size :: SizeType
  p_buffer :: "byte list option"

text \<open>
  \<^verbatim>\<open>GetMaximumSize\<close>: \<^verbatim>\<open>std::numeric_limits<std::ptrdiff_t>::max()\<close> as a \<^verbatim>\<open>SizeType\<close>.
\<close>

definition GetMaximumSize :: SizeType where
  "GetMaximumSize = 2 ^ 63 - 1"

text \<open>
  Memory.  \<^verbatim>\<open>std::make_unique<ValueType[]>(n)\<close> returns \<open>n\<close> zero bytes or throws
  \<^verbatim>\<open>std::bad_alloc\<close>.  Which one is not the caller's choice: a \<open>heap\<close> lists the outcomes of
  the allocations to come, in order (\<open>True\<close>: the allocation succeeds); when the list is used up
  every further allocation succeeds.  A function that allocates takes the heap and returns
  what is left of it.
\<close>

type_synonym heap = "bool list"

definition make_unique :: "nat \<Rightarrow> heap \<Rightarrow> byte list option \<times> heap" where
  "make_unique n h =
    (case h of
       [] \<Rightarrow> (Some (replicate n 0), [])
     | ok # h' \<Rightarrow> (if ok then Some (replicate n 0) else None, h'))"

text \<open>\<^verbatim>\<open>std::copy(src, src + n, dst)\<close>: the first \<open>n\<close> bytes of \<open>src\<close> over the start of \<open>dst\<close>.\<close>

definition std_copy :: "byte list \<Rightarrow> nat \<Rightarrow> byte list \<Rightarrow> byte list" where
  "std_copy src n dst = take n src @ drop n dst"

text \<open>\<^verbatim>\<open>std::fill(dst + from, dst + to, byte)\<close>.\<close>

definition std_fill :: "byte list \<Rightarrow> nat \<Rightarrow> nat \<Rightarrow> byte \<Rightarrow> byte list" where
  "std_fill dst from to byte = take from dst @ replicate (to - from) byte @ drop to dst"

text \<open>The bytes behind \<^verbatim>\<open>_buffer.get()\<close>; nothing behind a null pointer.\<close>

definition bytes_of :: "byte list option \<Rightarrow> byte list" where
  "bytes_of buffer = (case buffer of None \<Rightarrow> [] | Some xs \<Rightarrow> xs)"

definition empty_ByteBuffer :: ByteBuffer where
  "empty_ByteBuffer = \<lparr>p_size = 0, p_buffer = None\<rparr>"

subsection \<open>Constructors\<close>

text \<open>\<^verbatim>\<open>ByteBuffer()\<close>.\<close>

definition ByteBuffer_default :: ByteBuffer where
  "ByteBuffer_default = \<lparr>p_size = 0, p_buffer = None\<rparr>"

text \<open>\<^verbatim>\<open>explicit ByteBuffer(const SizeType size_)\<close>.\<close>

definition ByteBuffer_sized :: "SizeType \<Rightarrow> heap \<Rightarrow> ByteBuffer outcome \<times> heap" where
  "ByteBuffer_sized size' h =
    (if size' > GetMaximumSize then (Throws (ByteBuffer_Error MAXIMUM_SIZE_LIMIT_ERROR), h)
     else if size' > 0 then
       (case make_unique (unat size') h of
          (Some a, h') \<Rightarrow>
            (Returns \<lparr>p_size = size', p_buffer = Some (std_fill a 0 (unat size') 0)\<rparr>, h')
        | (None, h') \<Rightarrow> (Throws (ByteBuffer_Error ALLOCATION_ERROR), h'))
     else (Returns \<lparr>p_size = 0, p_buffer = None\<rparr>, h))"

text \<open>
  \<^verbatim>\<open>ByteBuffer(const ValueType* buffer_, const SizeType size_)\<close>.  The pointer is \<open>None\<close> when
  null, and otherwise the bytes it points to.
\<close>

definition ByteBuffer_from_pointer ::
  "byte list option \<Rightarrow> SizeType \<Rightarrow> heap \<Rightarrow> ByteBuffer outcome \<times> heap" where
  "ByteBuffer_from_pointer buffer size' h =
    (if size' > GetMaximumSize then (Throws (ByteBuffer_Error MAXIMUM_SIZE_LIMIT_ERROR), h)
     else if size' > 0 \<and> buffer = None then (Throws (ByteBuffer_Error INVALID_ARGUMENTS_ERROR), h)
     else if size' < 1 \<and> buffer \<noteq> None then (Throws (ByteBuffer_Error INVALID_ARGUMENTS_ERROR), h)
     else if size' < 1 \<and> buffer = None then (Returns \<lparr>p_size = 0, p_buffer = None\<rparr>, h)
     else
       (case make_unique (unat size') h of
          (Some a, h') \<Rightarrow>
            (Returns \<lparr>p_size = size', p_buffer = Some (std_copy (bytes_of buffer) (unat size') a)\<rparr>, h')
        | (None, h') \<Rightarrow> (Throws (ByteBuffer_Error ALLOCATION_ERROR), h')))"

text \<open>\<^verbatim>\<open>explicit ByteBuffer(const std::vector<ValueType>& vector_)\<close>.\<close>

definition ByteBuffer_from_vector :: "byte list \<Rightarrow> heap \<Rightarrow> ByteBuffer outcome \<times> heap" where
  "ByteBuffer_from_vector vector h =
    (if length vector > unat GetMaximumSize then
       (Throws (ByteBuffer_Error MAXIMUM_SIZE_LIMIT_ERROR), h)
     else if length vector > 0 then
       (case make_unique (length vector) h of
          (Some a, h') \<Rightarrow>
            (Returns \<lparr>p_size = of_nat (length vector),
                      p_buffer = Some (std_copy vector (length vector) a)\<rparr>, h')
        | (None, h') \<Rightarrow> (Throws (ByteBuffer_Error ALLOCATION_ERROR), h'))
     else (Returns \<lparr>p_size = 0, p_buffer = None\<rparr>, h))"

text \<open>\<^verbatim>\<open>ByteBuffer(const ByteBuffer& byteBuffer_)\<close>.\<close>

definition ByteBuffer_copy :: "ByteBuffer \<Rightarrow> heap \<Rightarrow> ByteBuffer outcome \<times> heap" where
  "ByteBuffer_copy other h =
    (if p_buffer other \<noteq> None then
       (case make_unique (unat (p_size other)) h of
          (Some a, h') \<Rightarrow>
            (Returns \<lparr>p_size = p_size other,
                      p_buffer = Some (std_copy (bytes_of (p_buffer other)) (unat (p_size other)) a)\<rparr>,
             h')
        | (None, h') \<Rightarrow> (Throws (ByteBuffer_Error ALLOCATION_ERROR), h'))
     else (Returns \<lparr>p_size = 0, p_buffer = None\<rparr>, h))"

text \<open>
  \<^verbatim>\<open>ByteBuffer(ByteBuffer&& byteBuffer_)\<close>: the new object and what is left of the argument.
\<close>

definition ByteBuffer_move :: "ByteBuffer \<Rightarrow> ByteBuffer \<times> ByteBuffer" where
  "ByteBuffer_move other =
    (\<lparr>p_size = p_size other, p_buffer = p_buffer other\<rparr>, \<lparr>p_size = 0, p_buffer = None\<rparr>)"

subsection \<open>Methods\<close>

text \<open>
  A method that changes its object returns how the call ended, the object afterwards and the
  heap afterwards.  When the call throws, the object is in the state the \<^verbatim>\<open>catch\<close> block (if
  any) left it in.
\<close>

type_synonym method_result = "unit outcome \<times> ByteBuffer \<times> heap"

text \<open>\<^verbatim>\<open>SetAllBytes\<close>.  \<^verbatim>\<open>std::fill\<close> does not allocate, so the \<^verbatim>\<open>catch\<close> is dead.\<close>

definition SetAllBytes :: "byte \<Rightarrow> ByteBuffer \<Rightarrow> heap \<Rightarrow> method_result" where
  "SetAllBytes byte this h =
    (if p_buffer this \<noteq> None then
       (Returns (),
        this\<lparr>p_buffer := Some (std_fill (bytes_of (p_buffer this)) 0 (unat (p_size this)) byte)\<rparr>, h)
     else (Returns (), this, h))"

text \<open>\<^verbatim>\<open>At\<close> (and \<^verbatim>\<open>operator[]\<close>), read.\<close>

definition At :: "SizeType \<Rightarrow> ByteBuffer \<Rightarrow> byte outcome" where
  "At position this =
    (if position < p_size this \<and> p_buffer this \<noteq> None
     then (if unat position < length (bytes_of (p_buffer this))
           then Returns (bytes_of (p_buffer this) ! unat position) else Undefined_Read)
     else Throws (ByteBuffer_Error OUT_OF_RANGE_ERROR))"

text \<open>\<^verbatim>\<open>buffer.At(position) = byte\<close>: a write through the reference \<^verbatim>\<open>At\<close> returns.\<close>

definition At_assign :: "SizeType \<Rightarrow> byte \<Rightarrow> ByteBuffer \<Rightarrow> unit outcome \<times> ByteBuffer" where
  "At_assign position byte this =
    (if position < p_size this \<and> p_buffer this \<noteq> None
     then (Returns (), this\<lparr>p_buffer := Some ((bytes_of (p_buffer this))[unat position := byte])\<rparr>)
     else (Throws (ByteBuffer_Error OUT_OF_RANGE_ERROR), this))"

text \<open>
  \<^verbatim>\<open>Resize(size_, byte_)\<close>; \<^verbatim>\<open>Resize(size_)\<close> is the same text with \<^verbatim>\<open>static_cast<ValueType>(0)\<close>
  for \<^verbatim>\<open>byte_\<close>.  There are two allocations inside one \<^verbatim>\<open>try\<close>: the copy of the old bytes
  (\<^verbatim>\<open>previousBuffer\<close>) and the new array.
\<close>

definition Resize_fill :: "SizeType \<Rightarrow> byte \<Rightarrow> ByteBuffer \<Rightarrow> heap \<Rightarrow> method_result" where
  "Resize_fill size' byte this h =
    (if size' > GetMaximumSize then (Throws (ByteBuffer_Error MAXIMUM_SIZE_LIMIT_ERROR), this, h)
     else if size' = p_size this then (Returns (), this, h)
     else if size' < 1 then (Returns (), \<lparr>p_size = 0, p_buffer = None\<rparr>, h)
     else
       (let previousSize = unat (p_size this) in
        case make_unique previousSize h of
          (None, h') \<Rightarrow>
            (Throws (ByteBuffer_Error ALLOCATION_ERROR), \<lparr>p_size = 0, p_buffer = None\<rparr>, h')
        | (Some a, h') \<Rightarrow>
            (let previousBuffer = std_copy (bytes_of (p_buffer this)) previousSize a in
             case make_unique (unat size') h' of
               (None, h'') \<Rightarrow>
                 (Throws (ByteBuffer_Error ALLOCATION_ERROR), \<lparr>p_size = 0, p_buffer = None\<rparr>, h'')
             | (Some b, h'') \<Rightarrow>
                 (if unat size' < previousSize then
                    (Returns (),
                     \<lparr>p_size = size', p_buffer = Some (std_copy previousBuffer (unat size') b)\<rparr>, h'')
                  else
                    (Returns (),
                     \<lparr>p_size = size',
                      p_buffer = Some (std_fill (std_copy previousBuffer previousSize b)
                                         previousSize (unat size') byte)\<rparr>, h'')))))"

definition Resize :: "SizeType \<Rightarrow> ByteBuffer \<Rightarrow> heap \<Rightarrow> method_result" where
  "Resize size' this h = Resize_fill size' 0 this h"

text \<open>\<^verbatim>\<open>Swap\<close>: both objects afterwards.\<close>

definition Swap :: "ByteBuffer \<Rightarrow> ByteBuffer \<Rightarrow> ByteBuffer \<times> ByteBuffer" where
  "Swap this other =
    (\<lparr>p_size = p_size other, p_buffer = p_buffer other\<rparr>,
     \<lparr>p_size = p_size this, p_buffer = p_buffer this\<rparr>)"

text \<open>\<^verbatim>\<open>Clear\<close>.\<close>

definition Clear :: "ByteBuffer \<Rightarrow> ByteBuffer" where
  "Clear this = \<lparr>p_size = 0, p_buffer = None\<rparr>"

text \<open>
  Copy assignment.  \<open>self\<close> says whether the argument is the object itself
  (\<^verbatim>\<open>&byteBuffer_ == this\<close>), which values alone cannot tell.
\<close>

definition assign_copy :: "bool \<Rightarrow> ByteBuffer \<Rightarrow> ByteBuffer \<Rightarrow> heap \<Rightarrow> method_result" where
  "assign_copy self other this h =
    (if self then (Returns (), this, h)
     else if p_buffer other \<noteq> None then
       (case make_unique (unat (p_size other)) h of
          (Some a, h') \<Rightarrow>
            (Returns (),
             \<lparr>p_size = p_size other,
              p_buffer = Some (std_copy (bytes_of (p_buffer other)) (unat (p_size other)) a)\<rparr>, h')
        | (None, h') \<Rightarrow>
            (Throws (ByteBuffer_Error ALLOCATION_ERROR), \<lparr>p_size = 0, p_buffer = None\<rparr>, h'))
     else (Returns (), \<lparr>p_size = 0, p_buffer = None\<rparr>, h))"

text \<open>Move assignment: the object and the argument afterwards.\<close>

definition assign_move :: "bool \<Rightarrow> ByteBuffer \<Rightarrow> ByteBuffer \<Rightarrow> ByteBuffer \<times> ByteBuffer" where
  "assign_move self other this =
    (if self then (this, other)
     else (\<lparr>p_size = p_size other, p_buffer = p_buffer other\<rparr>, \<lparr>p_size = 0, p_buffer = None\<rparr>))"

text \<open>
  \<^verbatim>\<open>operator+=\<close>.  The sum \<^verbatim>\<open>_size + byteBuffer_._size\<close> is a \<^verbatim>\<open>SizeType\<close> and wraps.  Both
  size checks throw before anything is assigned.  In the branch for an empty object the
  allocation is outside any \<^verbatim>\<open>try\<close>, after \<^verbatim>\<open>_size\<close> has been assigned:
  \<^verbatim>\<open>std::bad_alloc\<close> leaves the function as it is.
\<close>

definition plus_assign :: "ByteBuffer \<Rightarrow> ByteBuffer \<Rightarrow> heap \<Rightarrow> method_result" where
  "plus_assign other this h =
    (if p_buffer this \<noteq> None then
       (if p_buffer other \<noteq> None then
          (let nextSize = p_size this + p_size other in
           if nextSize > GetMaximumSize then
             (Throws (ByteBuffer_Error MAXIMUM_SIZE_LIMIT_ERROR), this, h)
           else if nextSize < p_size this then
             (Throws (ByteBuffer_Error MAXIMUM_SIZE_LIMIT_ERROR), this, h)
           else
             (case make_unique (unat nextSize) h of
                (None, h') \<Rightarrow>
                  (Throws (ByteBuffer_Error ALLOCATION_ERROR), \<lparr>p_size = 0, p_buffer = None\<rparr>, h')
              | (Some a, h') \<Rightarrow>
                  (Returns (),
                   \<lparr>p_size = nextSize,
                    p_buffer = Some
                      (take (unat (p_size this))
                         (std_copy (bytes_of (p_buffer this)) (unat (p_size this)) a) @
                       std_copy (bytes_of (p_buffer other)) (unat (p_size other))
                         (drop (unat (p_size this)) a))\<rparr>, h')))
        else (Returns (), this, h))
     else
       (if p_buffer other \<noteq> None then
          (case make_unique (unat (p_size other)) h of
             (None, h') \<Rightarrow> (Throws std_bad_alloc, \<lparr>p_size = p_size other, p_buffer = None\<rparr>, h')
           | (Some a, h') \<Rightarrow>
               (Returns (),
                \<lparr>p_size = p_size other,
                 p_buffer = Some (std_copy (bytes_of (p_buffer other)) (unat (p_size other)) a)\<rparr>, h'))
        else (Returns (), this, h)))"

subsection \<open>\<^verbatim>\<open>ReadFromFile\<close>\<close>

text \<open>
  What the file system answers is a parameter.  The file does not open (\<open>Not_open\<close>), or it
  opens and the calls of \<^verbatim>\<open>fileStream.read(_, 8192)\<close> go as an \<open>ifstream\<close> says: \<open>Read_good\<close>
  is a read after which the stream is still good, with the bytes it stored; \<open>Read_fail\<close> is a
  read that sets \<^verbatim>\<open>failbit\<close> (the loop \<^verbatim>\<open>while(fileStream)\<close> ends after it), with the bytes it
  stored before that and whether \<^verbatim>\<open>eofbit\<close> is set.  \<^verbatim>\<open>gcount\<close> is the number of bytes stored,
  at most 8192.
\<close>

datatype ifstream =
    Read_good "byte list" ifstream
  | Read_fail "byte list" bool

datatype file_source = Not_open | Opened ifstream

text \<open>
  One round of the loop's body from \<^verbatim>\<open>fileStream.gcount()\<close> on, for a read that did not fail
  or reached the end of the file: the chunk is cut to the bytes read and appended.
\<close>

definition append_chunk :: "byte list \<Rightarrow> ByteBuffer \<Rightarrow> heap \<Rightarrow> method_result" where
  "append_chunk bytes this h =
    (case ByteBuffer_sized 8192 h of
       (Throws e, h1) \<Rightarrow> (Throws e, this, h1)
     | (Terminated, h1) \<Rightarrow> (Terminated, this, h1)
     | (Undefined_Read, h1) \<Rightarrow> (Undefined_Read, this, h1)
     | (Returns byteBuffer, h1) \<Rightarrow>
         (let readCount = min (length bytes) 8192;
              filled = byteBuffer\<lparr>p_buffer :=
                         Some (std_copy bytes readCount (bytes_of (p_buffer byteBuffer)))\<rparr>
          in if readCount > 0 then
               (case Resize (of_nat readCount) filled h1 of
                  (Returns u, byteBuffer', h2) \<Rightarrow> plus_assign byteBuffer' this h2
                | (Throws e, byteBuffer', h2) \<Rightarrow> (Throws e, this, h2)
                | (Terminated, byteBuffer', h2) \<Rightarrow> (Terminated, this, h2)
                | (Undefined_Read, byteBuffer', h2) \<Rightarrow> (Undefined_Read, this, h2))
             else (Returns (), this, h1)))"

text \<open>
  The loop \<^verbatim>\<open>while(fileStream)\<close>.  The chunk \<^verbatim>\<open>ByteBuffer byteBuffer(8192)\<close> is constructed
  before the read, so its allocation comes first even when the read then fails.
\<close>

fun read_loop :: "ifstream \<Rightarrow> ByteBuffer \<Rightarrow> heap \<Rightarrow> method_result" where
  "read_loop (Read_good bytes rest) this h =
    (case append_chunk bytes this h of
       (Returns u, this', h') \<Rightarrow> read_loop rest this' h'
     | (Throws e, this', h') \<Rightarrow> (Throws e, this', h')
     | (Terminated, this', h') \<Rightarrow> (Terminated, this', h')
     | (Undefined_Read, this', h') \<Rightarrow> (Undefined_Read, this', h'))"
| "read_loop (Read_fail bytes eof) this h =
    (if eof then append_chunk bytes this h
     else
       (case ByteBuffer_sized 8192 h of
          (Returns byteBuffer, h1) \<Rightarrow>
            (Throws (ByteBuffer_Error READ_FROM_FILE_ERROR), \<lparr>p_size = 0, p_buffer = None\<rparr>, h1)
        | (Throws e, h1) \<Rightarrow> (Throws e, this, h1)
        | (Terminated, h1) \<Rightarrow> (Terminated, this, h1)
        | (Undefined_Read, h1) \<Rightarrow> (Undefined_Read, this, h1)))"

definition ReadFromFile :: "file_source \<Rightarrow> ByteBuffer \<Rightarrow> heap \<Rightarrow> method_result" where
  "ReadFromFile source this h =
    (case source of
       Opened stream \<Rightarrow> read_loop stream \<lparr>p_size = 0, p_buffer = None\<rparr> h
     | Not_open \<Rightarrow>
         (Throws (ByteBuffer_Error OPEN_FILE_ERROR), \<lparr>p_size = 0, p_buffer = None\<rparr>, h))"

text \<open>\<^verbatim>\<open>explicit ByteBuffer(const std::filesystem::path& filePath_)\<close> calls \<^verbatim>\<open>ReadFromFile\<close>.\<close>

definition ByteBuffer_from_file :: "file_source \<Rightarrow> heap \<Rightarrow> ByteBuffer outcome \<times> heap" where
  "ByteBuffer_from_file source h =
    (case ReadFromFile source ByteBuffer_default h of
       (Returns u, this, h') \<Rightarrow> (Returns this, h')
     | (Throws e, this, h') \<Rightarrow> (Throws e, h')
     | (Terminated, this, h') \<Rightarrow> (Terminated, h')
     | (Undefined_Read, this, h') \<Rightarrow> (Undefined_Read, h'))"

subsection \<open>The invariant between the pointer and the size\<close>

text \<open>
  Section 3 of the specification: the storage pointer is non-null if and only if \<open>n > 0\<close>.
  \<open>keeps_invariant\<close> reads the result of a method: the object satisfies the invariant when the
  call returned or threw a \<^verbatim>\<open>ByteBuffer::Error\<close>; \<open>constructed\<close> is the same for a constructor
  that returned.
\<close>

definition ByteBuffer_invariant :: "ByteBuffer \<Rightarrow> bool" where
  "ByteBuffer_invariant b \<longleftrightarrow> (p_buffer b \<noteq> None) = (0 < p_size b)"

definition keeps_invariant :: "method_result \<Rightarrow> bool" where
  "keeps_invariant r =
    (case r of
       (Returns u, this, h) \<Rightarrow> ByteBuffer_invariant this
     | (Throws (ByteBuffer_Error e), this, h) \<Rightarrow> ByteBuffer_invariant this
     | (Throws other, this, h) \<Rightarrow> True
     | (Terminated, this, h) \<Rightarrow> True
     | (Undefined_Read, this, h) \<Rightarrow> True)"

definition constructed :: "ByteBuffer outcome \<times> heap \<Rightarrow> bool" where
  "constructed r =
    (case r of
       (Returns this, h) \<Rightarrow> ByteBuffer_invariant this
     | (Throws e, h) \<Rightarrow> True
     | (Terminated, h) \<Rightarrow> True
     | (Undefined_Read, h) \<Rightarrow> True)"

lemma keeps_invariant_simps [simp]:
  "keeps_invariant (Returns u, this, h) = ByteBuffer_invariant this"
  "keeps_invariant (Throws (ByteBuffer_Error e), this, h) = ByteBuffer_invariant this"
  "keeps_invariant (Throws std_bad_alloc, this, h) = True"
  "keeps_invariant (Terminated, this, h) = True"
  "keeps_invariant (Undefined_Read, this, h) = True"
  by (simp_all add: keeps_invariant_def)

lemma constructed_simps [simp]:
  "constructed (Returns this, h) = ByteBuffer_invariant this"
  "constructed (Throws e, h) = True"
  "constructed (Terminated, h) = True"
  "constructed (Undefined_Read, h) = True"
  by (simp_all add: constructed_def)

lemma invariant_empty [simp]: "ByteBuffer_invariant \<lparr>p_size = 0, p_buffer = None\<rparr>"
  by (simp add: ByteBuffer_invariant_def)

lemma invariant_full [simp]:
  "ByteBuffer_invariant \<lparr>p_size = n, p_buffer = Some a\<rparr> \<longleftrightarrow> 0 < n"
  by (simp add: ByteBuffer_invariant_def)

lemma not_less_one_word: "\<not> (n::SizeType) < 1 \<Longrightarrow> 0 < n"
  by (simp add: word_greater_zero_iff word_less_1)

lemma constructed_sized: "constructed (ByteBuffer_sized n h)"
  by (simp add: ByteBuffer_sized_def split: prod.splits option.splits)

lemma constructed_from_pointer: "constructed (ByteBuffer_from_pointer ptr n h)"
  by (auto simp add: ByteBuffer_from_pointer_def not_less_one_word split: prod.splits option.splits)

lemma of_nat_length_pos:
  assumes "0 < n" and "\<not> unat GetMaximumSize < n"
  shows "0 < (of_nat n :: SizeType)"
proof -
  from assms(2) have "n < 2 ^ 64" by (simp add: GetMaximumSize_def)
  then have "unat (of_nat n :: SizeType) = n" by (simp add: unat_of_nat)
  with assms(1) have "0 < unat (of_nat n :: SizeType)" by simp
  then show ?thesis by (simp add: unat_gt_0 word_greater_zero_iff)
qed

lemma constructed_from_vector: "constructed (ByteBuffer_from_vector v h)"
  by (auto simp add: ByteBuffer_from_vector_def of_nat_length_pos split: prod.splits option.splits)

lemma constructed_copy: "ByteBuffer_invariant other \<Longrightarrow> constructed (ByteBuffer_copy other h)"
  by (auto simp add: ByteBuffer_copy_def ByteBuffer_invariant_def split: prod.splits option.splits)

lemma keeps_Resize_fill: "ByteBuffer_invariant this \<Longrightarrow> keeps_invariant (Resize_fill n byte this h)"
  by (auto simp add: Resize_fill_def Let_def not_less_one_word split: prod.splits option.splits)

lemma keeps_Resize: "ByteBuffer_invariant this \<Longrightarrow> keeps_invariant (Resize n this h)"
  by (simp add: Resize_def keeps_Resize_fill)

lemma keeps_SetAllBytes: "ByteBuffer_invariant this \<Longrightarrow> keeps_invariant (SetAllBytes byte this h)"
  by (simp add: SetAllBytes_def ByteBuffer_invariant_def)

lemma keeps_At_assign:
  "ByteBuffer_invariant this \<Longrightarrow> ByteBuffer_invariant (snd (At_assign position byte this))"
  by (simp add: At_assign_def ByteBuffer_invariant_def)

lemma sum_pos:
  fixes a b :: SizeType
  assumes "0 < a" and "\<not> a + b < a"
  shows "0 < a + b"
  using assms by (metis word_gt_0 word_coorder.extremum_uniqueI not_less)

lemma keeps_plus_assign:
  "ByteBuffer_invariant this \<Longrightarrow> ByteBuffer_invariant other \<Longrightarrow>
   keeps_invariant (plus_assign other this h)"
  by (auto simp add: plus_assign_def Let_def ByteBuffer_invariant_def sum_pos
      split: prod.splits option.splits)

lemma keeps_assign_copy:
  "ByteBuffer_invariant this \<Longrightarrow> ByteBuffer_invariant other \<Longrightarrow>
   keeps_invariant (assign_copy self other this h)"
  by (auto simp add: assign_copy_def ByteBuffer_invariant_def split: prod.splits option.splits)

lemma sized_cases:
  "(\<exists>e h'. ByteBuffer_sized n h = (Throws (ByteBuffer_Error e), h')) \<or>
   (\<exists>b h'. ByteBuffer_sized n h = (Returns b, h') \<and> ByteBuffer_invariant b)"
  by (auto simp add: ByteBuffer_sized_def split: prod.splits option.splits)

lemma Resize_cases:
  assumes "ByteBuffer_invariant this"
  shows "(\<exists>e this' h'. Resize n this h = (Throws (ByteBuffer_Error e), this', h')) \<or>
   (\<exists>this' h'. Resize n this h = (Returns (), this', h') \<and> ByteBuffer_invariant this')"
  using assms
  by (auto simp add: Resize_def Resize_fill_def Let_def not_less_one_word
      split: prod.splits option.splits)

lemma keeps_append_chunk:
  assumes "ByteBuffer_invariant this"
  shows "keeps_invariant (append_chunk bytes this h)"
proof -
  from sized_cases [of 8192 h] show ?thesis
  proof (elim disjE exE conjE)
    fix e h'
    assume "ByteBuffer_sized 8192 h = (Throws (ByteBuffer_Error e), h')"
    with assms show ?thesis by (simp add: append_chunk_def)
  next
    fix b h'
    assume b: "ByteBuffer_sized 8192 h = (Returns b, h')" and ib: "ByteBuffer_invariant b"
    let ?filled = "b\<lparr>p_buffer := Some (std_copy bytes (min (length bytes) 8192) (bytes_of (p_buffer b)))\<rparr>"
    from ib b have "ByteBuffer_invariant ?filled"
      by (auto simp add: ByteBuffer_invariant_def ByteBuffer_sized_def split: if_splits prod.splits option.splits)
    from Resize_cases [OF this, of "of_nat (min (length bytes) 8192)" h'] show ?thesis
    proof (elim disjE exE conjE)
      fix e this' h''
      assume "Resize (of_nat (min (length bytes) 8192)) ?filled h' =
          (Throws (ByteBuffer_Error e), this', h'')"
      with assms b show ?thesis by (simp add: append_chunk_def Let_def)
    next
      fix this' h''
      assume "Resize (of_nat (min (length bytes) 8192)) ?filled h' = (Returns (), this', h'')"
        and "ByteBuffer_invariant this'"
      with assms b keeps_plus_assign [OF assms, of this' h''] show ?thesis
        by (simp add: append_chunk_def Let_def)
    qed
  qed
qed

lemma keeps_read_loop:
  "ByteBuffer_invariant this \<Longrightarrow> keeps_invariant (read_loop stream this h)"
proof (induction stream arbitrary: this h)
  case (Read_good bytes rest)
  obtain r this' h' where a: "append_chunk bytes this h = (r, this', h')"
    by (cases "append_chunk bytes this h") auto
  from keeps_append_chunk [OF Read_good.prems, of bytes h] a
  have k: "keeps_invariant (r, this', h')" by simp
  show ?case
  proof (cases r)
    case (Returns u)
    with k have "ByteBuffer_invariant this'" by simp
    from Read_good.IH [OF this, of h'] a Returns show ?thesis by simp
  next
    case (Throws e)
    with k a show ?thesis by simp
  next
    case Terminated
    with a show ?thesis by simp
  next
    case Undefined_Read
    with a show ?thesis by simp
  qed
next
  case (Read_fail bytes eof)
  show ?case
  proof (cases eof)
    case True
    with keeps_append_chunk [OF Read_fail.prems] show ?thesis by simp
  next
    case False
    with sized_cases [of 8192 h] Read_fail.prems show ?thesis by auto
  qed
qed

lemma keeps_ReadFromFile: "keeps_invariant (ReadFromFile source this h)"
  by (cases source) (simp_all add: ReadFromFile_def keeps_read_loop)

lemma constructed_from_file: "constructed (ByteBuffer_from_file source h)"
proof -
  obtain r this h' where r: "ReadFromFile source ByteBuffer_default h = (r, this, h')"
    by (cases "ReadFromFile source ByteBuffer_default h") auto
  with keeps_ReadFromFile [of source ByteBuffer_default h] show ?thesis
    by (cases r) (simp_all add: ByteBuffer_from_file_def)
qed

text \<open>
  C5: the invariant "the storage pointer is non-null if and only if the length is positive"
  holds after every constructor that returns, and is preserved by every public operation that
  returns normally or raises a ByteBuffer error: \<^verbatim>\<open>Resize\<close> (both overloads), \<^verbatim>\<open>Clear\<close>,
  \<^verbatim>\<open>SetAllBytes\<close>, a write through \<^verbatim>\<open>At\<close>, \<^verbatim>\<open>operator+=\<close>, copy and move assignment, \<^verbatim>\<open>Swap\<close>
  and \<^verbatim>\<open>ReadFromFile\<close>, whatever the allocator and the file system answer.
\<close>

theorem ByteBuffer_invariant_preserved:
  "ByteBuffer_invariant ByteBuffer_default \<and>
   constructed (ByteBuffer_sized n h) \<and>
   constructed (ByteBuffer_from_pointer pointer n h) \<and>
   constructed (ByteBuffer_from_vector vector h) \<and>
   constructed (ByteBuffer_from_file source h) \<and>
   (ByteBuffer_invariant other \<longrightarrow>
      constructed (ByteBuffer_copy other h) \<and>
      ByteBuffer_invariant (fst (ByteBuffer_move other)) \<and>
      ByteBuffer_invariant (snd (ByteBuffer_move other))) \<and>
   (ByteBuffer_invariant this \<longrightarrow>
      keeps_invariant (Resize n this h) \<and>
      keeps_invariant (Resize_fill n byte this h) \<and>
      ByteBuffer_invariant (Clear this) \<and>
      keeps_invariant (SetAllBytes byte this h) \<and>
      ByteBuffer_invariant (snd (At_assign position byte this)) \<and>
      keeps_invariant (ReadFromFile source this h)) \<and>
   (ByteBuffer_invariant this \<and> ByteBuffer_invariant other \<longrightarrow>
      keeps_invariant (plus_assign other this h) \<and>
      keeps_invariant (assign_copy self other this h) \<and>
      ByteBuffer_invariant (fst (assign_move self other this)) \<and>
      ByteBuffer_invariant (snd (assign_move self other this)) \<and>
      ByteBuffer_invariant (fst (Swap this other)) \<and>
      ByteBuffer_invariant (snd (Swap this other)))"
  by (simp add: constructed_sized constructed_from_pointer constructed_from_vector
      constructed_from_file constructed_copy keeps_Resize keeps_Resize_fill keeps_SetAllBytes
      keeps_At_assign keeps_ReadFromFile keeps_plus_assign keeps_assign_copy)
     (simp add: ByteBuffer_invariant_def ByteBuffer_default_def ByteBuffer_move_def Clear_def
      assign_move_def Swap_def)

theorem ByteBuffer_invariant_preserved_witness:
  "ByteBuffer_invariant \<lparr>p_size = 3, p_buffer = Some [1, 2, 3]\<rparr> \<and>
   ByteBuffer_invariant \<lparr>p_size = 1, p_buffer = Some [9]\<rparr> \<and>
   plus_assign \<lparr>p_size = 1, p_buffer = Some [9]\<rparr> \<lparr>p_size = 3, p_buffer = Some [1, 2, 3]\<rparr> [False] =
     (Throws (ByteBuffer_Error ALLOCATION_ERROR), \<lparr>p_size = 0, p_buffer = None\<rparr>, []) \<and>
   keeps_invariant
     (plus_assign \<lparr>p_size = 1, p_buffer = Some [9]\<rparr> \<lparr>p_size = 3, p_buffer = Some [1, 2, 3]\<rparr> [False]) \<and>
   plus_assign \<lparr>p_size = 1, p_buffer = Some [9]\<rparr> \<lparr>p_size = 3, p_buffer = Some [1, 2, 3]\<rparr> [] =
     (Returns (), \<lparr>p_size = 4, p_buffer = Some [1, 2, 3, 9]\<rparr>, []) \<and>
   keeps_invariant
     (plus_assign \<lparr>p_size = 1, p_buffer = Some [9]\<rparr> \<lparr>p_size = 3, p_buffer = Some [1, 2, 3]\<rparr> [])"
proof -
  let ?a = "\<lparr>p_size = 3, p_buffer = Some [1, 2, 3]\<rparr>"
  let ?b = "\<lparr>p_size = 1, p_buffer = Some [9]\<rparr>"
  have i: "ByteBuffer_invariant ?a" and j: "ByteBuffer_invariant ?b"
    by (simp_all add: ByteBuffer_invariant_def)
  have fails: "plus_assign ?b ?a [False] =
      (Throws (ByteBuffer_Error ALLOCATION_ERROR), \<lparr>p_size = 0, p_buffer = None\<rparr>, [])"
    by code_simp
  have works: "plus_assign ?b ?a [] =
      (Returns (), \<lparr>p_size = 4, p_buffer = Some [1, 2, 3, 9]\<rparr>, [])"
    by code_simp
  from ByteBuffer_invariant_preserved [of 0 "[False]" None "[]" Not_open ?b ?a 0 0 False] i j
  have "keeps_invariant (plus_assign ?b ?a [False])" by blast
  moreover
  from ByteBuffer_invariant_preserved [of 0 "[]" None "[]" Not_open ?b ?a 0 0 False] i j
  have "keeps_invariant (plus_assign ?b ?a [])" by blast
  ultimately show ?thesis using i j fails works by simp
qed

subsection \<open>Concatenation beyond the maximum size\<close>

text \<open>
  Two buffers of \<open>2^62\<close> bytes each: their sizes add up to \<open>2^63\<close>, one more than
  \<^verbatim>\<open>GetMaximumSize()\<close>.  \<^verbatim>\<open>operator+=\<close> throws the size-limit error and the left operand is what
  it was, not the empty buffer: the two \<^verbatim>\<open>throw\<close> statements for the size come before any
  assignment, and only the \<^verbatim>\<open>catch\<close> of an allocation failure resets the object.
\<close>

theorem plus_assign_not_reset:
  "plus_assign \<lparr>p_size = 2 ^ 62, p_buffer = Some (replicate (2 ^ 62) 0)\<rparr>
     \<lparr>p_size = 2 ^ 62, p_buffer = Some (replicate (2 ^ 62) 0)\<rparr> [] =
   (Throws (ByteBuffer_Error MAXIMUM_SIZE_LIMIT_ERROR),
    \<lparr>p_size = 2 ^ 62, p_buffer = Some (replicate (2 ^ 62) 0)\<rparr>, []) \<and>
   \<lparr>p_size = 2 ^ 62, p_buffer = Some (replicate (2 ^ 62) 0)\<rparr> \<noteq> empty_ByteBuffer"
  by (simp add: plus_assign_def Let_def GetMaximumSize_def empty_ByteBuffer_def)

text \<open>
  C4, as the code has it: for every pair of ByteBuffers \<open>a\<close> and \<open>b\<close> (each satisfying the
  specification's invariants: pointer non-null exactly when the size is positive, size at
  most \<open>N_max\<close>), if \<open>n_a + n_b\<close> exceeds \<open>N_max\<close> then \<open>a += b\<close> raises the size-limit error
  kind and leaves \<open>a\<close> unchanged, hence not empty.  (Sizes of valid buffers cannot add up past
  the range of \<^verbatim>\<open>std::size_t\<close>.)
\<close>

theorem plus_assign_size_limit:
  assumes "ByteBuffer_invariant this" and "ByteBuffer_invariant other"
    and "p_size this \<le> GetMaximumSize" and "p_size other \<le> GetMaximumSize"
    and "unat GetMaximumSize < unat (p_size this) + unat (p_size other)"
  shows "plus_assign other this h = (Throws (ByteBuffer_Error MAXIMUM_SIZE_LIMIT_ERROR), this, h) \<and>
         this \<noteq> empty_ByteBuffer"
proof -
  from assms(3,5) have "0 < unat (p_size other)" and a0: "0 < unat (p_size this) \<or> True"
    by (auto simp add: word_le_nat_alt)
  with assms(2) have o: "p_buffer other \<noteq> None"
    by (simp add: ByteBuffer_invariant_def unat_gt_0 word_greater_zero_iff)
  from assms(4,5) have "0 < unat (p_size this)" by (auto simp add: word_le_nat_alt)
  then have pos: "0 < p_size this" by (simp add: unat_gt_0 word_greater_zero_iff)
  with assms(1) have t: "p_buffer this \<noteq> None" by (simp add: ByteBuffer_invariant_def)
  from assms(3,4) have "unat (p_size this) + unat (p_size other) < 2 ^ 64"
    by (simp add: word_le_nat_alt GetMaximumSize_def)
  then have "unat (p_size this + p_size other) = unat (p_size this) + unat (p_size other)"
    by (simp add: unat_add_lem [THEN iffD1])
  with assms(5) have "GetMaximumSize < p_size this + p_size other"
    by (simp add: word_less_nat_alt)
  with o t have "plus_assign other this h =
      (Throws (ByteBuffer_Error MAXIMUM_SIZE_LIMIT_ERROR), this, h)"
    by (simp add: plus_assign_def Let_def)
  moreover from pos have "this \<noteq> empty_ByteBuffer" by (auto simp add: empty_ByteBuffer_def)
  ultimately show ?thesis by simp
qed

theorem plus_assign_size_limit_witness:
  "ByteBuffer_invariant \<lparr>p_size = 2 ^ 63 - 1, p_buffer = Some (replicate (2 ^ 63 - 1) 7)\<rparr> \<and>
   ByteBuffer_invariant \<lparr>p_size = 1, p_buffer = Some [42]\<rparr> \<and>
   (2 ^ 63 - 1 :: SizeType) \<le> GetMaximumSize \<and> (1 :: SizeType) \<le> GetMaximumSize \<and>
   unat GetMaximumSize < unat (2 ^ 63 - 1 :: SizeType) + unat (1 :: SizeType) \<and>
   plus_assign \<lparr>p_size = 1, p_buffer = Some [42]\<rparr>
     \<lparr>p_size = 2 ^ 63 - 1, p_buffer = Some (replicate (2 ^ 63 - 1) 7)\<rparr> [True] =
   (Throws (ByteBuffer_Error MAXIMUM_SIZE_LIMIT_ERROR),
    \<lparr>p_size = 2 ^ 63 - 1, p_buffer = Some (replicate (2 ^ 63 - 1) 7)\<rparr>, [True])"
proof -
  let ?a = "\<lparr>p_size = 2 ^ 63 - 1, p_buffer = Some (replicate (2 ^ 63 - 1) 7)\<rparr>"
  let ?b = "\<lparr>p_size = 1, p_buffer = Some [42]\<rparr>"
  have h1: "ByteBuffer_invariant ?a" and h2: "ByteBuffer_invariant ?b"
    by (simp_all add: ByteBuffer_invariant_def)
  have h3: "p_size ?a \<le> GetMaximumSize" and h4: "p_size ?b \<le> GetMaximumSize"
    by (simp_all add: GetMaximumSize_def)
  have h5: "unat GetMaximumSize < unat (p_size ?a) + unat (p_size ?b)"
    by (simp add: GetMaximumSize_def)
  from plus_assign_size_limit [OF h1 h2 h3 h4 h5, of "[True]"] h1 h2 h3 h4 h5
  show ?thesis by simp
qed

section \<open>Ascii85\<close>

text \<open>
  \<^verbatim>\<open>unsigned int\<close> counters are natural numbers here; the two subtractions on them
  (\<^verbatim>\<open>4U - counter\<close> and \<^verbatim>\<open>5U - previousCounter\<close>) are written with their wrap-around at
  \<open>2^32\<close>.  \<^verbatim>\<open>unsigned long long\<close> is a 64-bit word, \<^verbatim>\<open>std::bitset<charSize * 4>\<close> a 32-bit word.
  The encoders' \<^verbatim>\<open>reserve\<close> (five quarters of the input's size, computed in \<^verbatim>\<open>double\<close>) only
  pre-allocates; strings are lists without a \<^verbatim>\<open>max_size\<close> here, so its \<^verbatim>\<open>length_error\<close>
  branch is not modelled.
\<close>

definition unsigned_minus :: "nat \<Rightarrow> nat \<Rightarrow> nat" where
  "unsigned_minus a b = (if b \<le> a then a - b else a + 2 ^ 32 - b)"

subsection \<open>Encoding\<close>

text \<open>
  The inner loop of the encoders: up to four bytes are shifted into \<open>bitset\<close>.  The result is
  \<open>iter\<close>, \<open>counter\<close> and \<open>bitset\<close> when the loop is left.
\<close>

function Ascii85_collect ::
  "byte list \<Rightarrow> nat \<Rightarrow> nat \<Rightarrow> nat \<Rightarrow> 32 word \<Rightarrow> nat \<times> nat \<times> 32 word" where
  "Ascii85_collect xs iter jter counter bitset =
    (if jter < length xs then
       (if jter + 1 = length xs \<or> jter + 1 = iter + 4
        then (jter, counter + 1, push_bit 8 bitset OR ucast (xs ! jter))
        else Ascii85_collect xs iter (jter + 1) (counter + 1)
               (push_bit 8 bitset OR ucast (xs ! jter)))
     else (iter, counter, bitset))"
  by pat_completeness auto
termination
  by (relation "measure (\<lambda>(xs, iter, jter, counter, bitset). length xs - jter)") auto

declare Ascii85_collect.simps [simp del]

text \<open>
  The five radix-85 digits of a group, most significant first, each plus 33.  The source
  divides with \<^verbatim>\<open>std::floor(static_cast<double>(bitsetNumber) / 85.0)\<close>; the number is below
  \<open>2^32\<close>, where the conversion to \<^verbatim>\<open>double\<close> is exact and the floor of the rounded quotient
  is the integer quotient, so the model divides words.
\<close>

definition Ascii85_codes :: "64 word \<Rightarrow> string" where
  "Ascii85_codes bitsetNumber =
    (let c0 = bitsetNumber mod 85; n1 = bitsetNumber div 85;
         c1 = n1 mod 85; n2 = n1 div 85;
         c2 = n2 mod 85; n3 = n2 div 85;
         c3 = n3 mod 85; n4 = n3 div 85;
         c4 = n4 mod 85
     in [to_char (c4 + 33), to_char (c3 + 33), to_char (c2 + 33), to_char (c1 + 33),
         to_char (c0 + 33)])"

text \<open>
  The outer loop's body after the inner loop: \<^verbatim>\<open>switch(counter)\<close> (a full group sets
  \<open>counter\<close> to 0, a short one is shifted up), then \<^verbatim>\<open>'z'\<close>, \<^verbatim>\<open>'y'\<close> or the digits, and the
  \<^verbatim>\<open>erase\<close> of the last \<^verbatim>\<open>4U - counter\<close> characters unless that number is 4.  The test for
  \<^verbatim>\<open>'z'\<close> looks at \<open>bitset\<close> only.
\<close>

definition Ascii85_write :: "bool \<Rightarrow> nat \<Rightarrow> 32 word \<Rightarrow> string" where
  "Ascii85_write foldSpaces counter bitset =
    (if bitset = 0 then ''z''
     else if bitset = 0x20202020 \<and> foldSpaces then ''y''
     else
       (let encoded = Ascii85_codes (ucast bitset)
        in if unsigned_minus 4 counter \<noteq> 4
           then take (length encoded - unsigned_minus 4 counter) encoded
           else encoded))"

definition Ascii85_encode_group :: "bool \<Rightarrow> nat \<Rightarrow> 32 word \<Rightarrow> string outcome" where
  "Ascii85_encode_group foldSpaces counter bitset =
    (if counter = 4 then Returns (Ascii85_write foldSpaces 0 bitset)
     else if counter = 3 then Returns (Ascii85_write foldSpaces counter (push_bit 8 bitset))
     else if counter = 2 then Returns (Ascii85_write foldSpaces counter (push_bit 16 bitset))
     else if counter = 1 then Returns (Ascii85_write foldSpaces counter (push_bit 24 bitset))
     else Terminated)"

lemma Ascii85_collect_iter_mono:
  "Ascii85_collect xs iter jter counter bitset = (iter', r) \<Longrightarrow> iter \<le> jter \<Longrightarrow> iter \<le> iter'"
proof (induction xs iter jter counter bitset rule: Ascii85_collect.induct)
  case (1 xs iter jter counter bitset)
  note eq = "1.prems"(1) [unfolded Ascii85_collect.simps [of xs iter jter counter bitset]]
  show ?case
  proof (cases "jter < length xs")
    case False
    with eq show ?thesis by simp
  next
    case True
    with eq "1.IH" "1.prems"(2) show ?thesis
      by (auto split: if_splits)
  qed
qed

function Ascii85_encode_loop :: "byte list \<Rightarrow> bool \<Rightarrow> nat \<Rightarrow> string \<Rightarrow> string outcome" where
  "Ascii85_encode_loop xs foldSpaces iter encodedString =
    (if iter < length xs then
       (case Ascii85_collect xs iter iter 0 0 of
          (iter', counter, bitset) \<Rightarrow>
            (case Ascii85_encode_group foldSpaces counter bitset of
               Returns written \<Rightarrow>
                 Ascii85_encode_loop xs foldSpaces (iter' + 1) (encodedString @ written)
             | Throws e \<Rightarrow> Throws e
             | Terminated \<Rightarrow> Terminated
             | Undefined_Read \<Rightarrow> Undefined_Read))
     else Returns encodedString)"
  by pat_completeness auto
termination
proof (relation "measure (\<lambda>(xs, foldSpaces, iter, encodedString). length xs - iter)", goal_cases)
  case 1
  show ?case by simp
next
  case (2 xs foldSpaces iter encodedString iter' y counter bitset written)
  from 2(2) have "Ascii85_collect xs iter iter 0 0 = (iter', y)" by simp
  then have "iter \<le> iter'" by (rule Ascii85_collect_iter_mono) simp
  with 2 show ?case by simp
qed

declare Ascii85_encode_loop.simps [simp del]

text \<open>The two encoders differ in where the bytes come from, and in nothing else.\<close>

definition Ascii85_encode :: "byte list \<Rightarrow> bool \<Rightarrow> bool \<Rightarrow> string outcome" where
  "Ascii85_encode xs foldSpaces adobeMode =
    (case Ascii85_encode_loop xs foldSpaces 0 (if adobeMode then ''<~'' else []) of
       Returns encodedString \<Rightarrow>
         Returns (if adobeMode then encodedString @ ''~>'' else encodedString)
     | Throws e \<Rightarrow> Throws e
     | Terminated \<Rightarrow> Terminated
     | Undefined_Read \<Rightarrow> Undefined_Read)"

text \<open>\<^verbatim>\<open>Ascii85::EncodeStringToString\<close>: the bytes are the characters of the string.\<close>

definition Ascii85_EncodeStringToString :: "string \<Rightarrow> bool \<Rightarrow> bool \<Rightarrow> string outcome" where
  "Ascii85_EncodeStringToString string foldSpaces adobeMode =
    Ascii85_encode (map char_bits string) foldSpaces adobeMode"

text \<open>
  \<^verbatim>\<open>Ascii85::EncodeByteBufferToString\<close>: the bytes are those between \<^verbatim>\<open>ConstantBegin()\<close> and
  \<^verbatim>\<open>ConstantEnd()\<close>, the first \<^verbatim>\<open>_size\<close> bytes of the array.
\<close>

definition Ascii85_EncodeByteBufferToString :: "ByteBuffer \<Rightarrow> bool \<Rightarrow> bool \<Rightarrow> string outcome" where
  "Ascii85_EncodeByteBufferToString byteBuffer foldSpaces adobeMode =
    Ascii85_encode (take (unat (p_size byteBuffer)) (bytes_of (p_buffer byteBuffer)))
      foldSpaces adobeMode"

subsection \<open>Decoding: what the two decoders share\<close>

text \<open>
  The weights of \<^verbatim>\<open>switch(counter)\<close>, in the source \<^verbatim>\<open>85ULL * 85ULL * 85ULL * 85ULL\<close> down to
  1; \<open>None\<close> is the \<^verbatim>\<open>default\<close> branch with \<^verbatim>\<open>UnreachableTerminate\<close>.
\<close>

definition Ascii85_weight :: "nat \<Rightarrow> 64 word option" where
  "Ascii85_weight counter =
    (if counter = 1 then Some (85 * 85 * 85 * 85)
     else if counter = 2 then Some (85 * 85 * 85)
     else if counter = 3 then Some (85 * 85)
     else if counter = 4 then Some 85
     else if counter = 5 then Some 1
     else None)"

text \<open>
  One digit: the range test, then the \<^verbatim>\<open>switch\<close>.  \<open>counter\<close> is already incremented.
\<close>

definition Ascii85_digit :: "nat \<Rightarrow> 64 word \<Rightarrow> char \<Rightarrow> 64 word outcome" where
  "Ascii85_digit counter bitsetNumber c =
    (if (char_bits c :: 64 word) < 33 \<or> (char_bits c :: 64 word) > 117
     then Throws (Ascii85_Error Ascii85_STRING_PARSE_ERROR)
     else
       (case Ascii85_weight counter of
          Some w \<Rightarrow> Returns (bitsetNumber + (char_bits c - 33) * w)
        | None \<Rightarrow> Terminated))"

text \<open>
  The inner loop \<^verbatim>\<open>for(jter(iter); iter != encodedStringEnd; ++jter)\<close>: its condition tests
  the \<^emph>\<open>outer\<close> iterator.  A blank moves \<open>iter\<close> along, so that five digits are counted from
  it.  Reading at or behind the end of the string is undefined.
\<close>

function Ascii85_group ::
  "string \<Rightarrow> nat \<Rightarrow> nat \<Rightarrow> nat \<Rightarrow> nat \<Rightarrow> 64 word \<Rightarrow> (nat \<times> nat \<times> 64 word) outcome" where
  "Ascii85_group s encodedStringEnd iter jter counter bitsetNumber =
    (if iter = encodedStringEnd then Returns (iter, counter, bitsetNumber)
     else if length s \<le> jter then Undefined_Read
     else if is_blank (s ! jter) then
       (if jter + 1 = encodedStringEnd then Returns (iter, counter, bitsetNumber)
        else Ascii85_group s encodedStringEnd (iter + 1) (jter + 1) counter bitsetNumber)
     else
       (case Ascii85_digit (counter + 1) bitsetNumber (s ! jter) of
          Returns bitsetNumber' \<Rightarrow>
            (if jter + 1 = encodedStringEnd \<or> jter + 1 = iter + 5
             then Returns (jter, counter + 1, bitsetNumber')
             else Ascii85_group s encodedStringEnd iter (jter + 1) (counter + 1) bitsetNumber')
        | Throws e \<Rightarrow> Throws e
        | Terminated \<Rightarrow> Terminated
        | Undefined_Read \<Rightarrow> Undefined_Read))"
  by pat_completeness auto
termination
  by (relation "measure (\<lambda>(s, encodedStringEnd, iter, jter, counter, bitsetNumber). length s - jter)")
     auto

declare Ascii85_group.simps [simp del]

text \<open>
  \<^verbatim>\<open>while(counter < 5U)\<close>: a short group is filled up with the digit 84.
\<close>

function Ascii85_pad :: "nat \<Rightarrow> 64 word \<Rightarrow> 64 word outcome" where
  "Ascii85_pad counter bitsetNumber =
    (if counter < 5 then
       (case Ascii85_weight (counter + 1) of
          Some w \<Rightarrow> Ascii85_pad (counter + 1) (bitsetNumber + 84 * w)
        | None \<Rightarrow> Terminated)
     else Returns bitsetNumber)"
  by pat_completeness auto
termination
  by (relation "measure (\<lambda>(counter, bitsetNumber). 5 - counter)") auto

declare Ascii85_pad.simps [simp del]

text \<open>
  The last \<^verbatim>\<open>switch(counter)\<close>, on \<^verbatim>\<open>5U - previousCounter\<close>: the bytes a group gives.
\<close>

definition Ascii85_bytes :: "nat \<Rightarrow> 32 word \<Rightarrow> byte list outcome" where
  "Ascii85_bytes counter bitset =
    (if counter = 0 then
       Returns [ucast (drop_bit 24 bitset), ucast (drop_bit 16 bitset), ucast (drop_bit 8 bitset),
                ucast bitset]
     else if counter = 1 then
       Returns [ucast (drop_bit 24 bitset), ucast (drop_bit 16 bitset), ucast (drop_bit 8 bitset)]
     else if counter = 2 then
       Returns [ucast (drop_bit 24 bitset), ucast (drop_bit 16 bitset)]
     else if counter = 3 then Returns [ucast (drop_bit 24 bitset)]
     else if counter = 4 then Returns []
     else Terminated)"

text \<open>
  From the inner loop to the bytes of the group: the loop, the padding, the conversion
  \<^verbatim>\<open>std::bitset<charSize * 4>(bitsetNumber)\<close> (the low 32 bits) and the last \<^verbatim>\<open>switch\<close>.  The
  result is \<open>iter\<close> after the inner loop and the bytes.
\<close>

definition Ascii85_decode_group :: "string \<Rightarrow> nat \<Rightarrow> nat \<Rightarrow> (nat \<times> byte list) outcome" where
  "Ascii85_decode_group s encodedStringEnd iter =
    (case Ascii85_group s encodedStringEnd iter iter 0 0 of
       Returns (iter', previousCounter, bitsetNumber) \<Rightarrow>
         (case Ascii85_pad previousCounter bitsetNumber of
            Returns bitsetNumber' \<Rightarrow>
              (case Ascii85_bytes (unsigned_minus 5 previousCounter) (ucast bitsetNumber') of
                 Returns bytes \<Rightarrow> Returns (iter', bytes)
               | Throws e \<Rightarrow> Throws e
               | Terminated \<Rightarrow> Terminated
               | Undefined_Read \<Rightarrow> Undefined_Read)
          | Throws e \<Rightarrow> Throws e
          | Terminated \<Rightarrow> Terminated
          | Undefined_Read \<Rightarrow> Undefined_Read)
     | Throws e \<Rightarrow> Throws e
     | Terminated \<Rightarrow> Terminated
     | Undefined_Read \<Rightarrow> Undefined_Read)"

lemma Ascii85_group_iter_mono:
  "Ascii85_group s encodedStringEnd iter jter counter bitsetNumber = Returns (iter', r)
   \<Longrightarrow> iter \<le> jter \<Longrightarrow> iter \<le> iter'"
proof (induction s encodedStringEnd iter jter counter bitsetNumber rule: Ascii85_group.induct)
  case (1 s encodedStringEnd iter jter counter bitsetNumber)
  note eq = "1.prems"(1)
    [unfolded Ascii85_group.simps [of s encodedStringEnd iter jter counter bitsetNumber]]
  show ?case
  proof (cases "iter = encodedStringEnd \<or> length s \<le> jter")
    case True
    with eq show ?thesis by (auto split: if_splits)
  next
    case inside: False
    show ?thesis
    proof (cases "is_blank (s ! jter)")
      case True
      with inside eq "1.IH"(1) "1.prems"(2) show ?thesis
        by (cases "jter + 1 = encodedStringEnd") auto
    next
      case False
      with inside eq "1.IH"(2) "1.prems"(2) show ?thesis
        by (cases "Ascii85_digit (counter + 1) bitsetNumber (s ! jter)") (auto split: if_splits)
    qed
  qed
qed

lemma Ascii85_decode_group_iter_mono:
  "Ascii85_decode_group s encodedStringEnd iter = Returns (iter', bytes) \<Longrightarrow> iter \<le> iter'"
  unfolding Ascii85_decode_group_def
  by (auto split: outcome.splits prod.splits dest: Ascii85_group_iter_mono)

text \<open>
  Adobe mode, the opening delimiter: the first loop over the string.  It yields
  \<^verbatim>\<open>encodedStringBegin\<close>.  \<^verbatim>\<open>*std::next(iter, 1)\<close> on the last character dereferences the end
  iterator.
\<close>

function Ascii85_find_begin :: "string \<Rightarrow> nat \<Rightarrow> nat outcome" where
  "Ascii85_find_begin s iter =
    (if iter < length s then
       (if s ! iter = CHR ''<'' then
          (if length s \<le> iter + 1 then Undefined_Read
           else if s ! (iter + 1) = CHR ''~'' \<and> iter + 2 \<noteq> length s then Returns (iter + 2)
           else Throws (Ascii85_Error Ascii85_STRING_PARSE_ERROR))
        else if is_blank (s ! iter) then
          (if iter + 1 = length s then Throws (Ascii85_Error Ascii85_STRING_PARSE_ERROR)
           else Ascii85_find_begin s (iter + 1))
        else Throws (Ascii85_Error Ascii85_STRING_PARSE_ERROR))
     else Returns 0)"
  by pat_completeness auto
termination
  by (relation "measure (\<lambda>(s, iter). length s - iter)") auto

declare Ascii85_find_begin.simps [simp del]

text \<open>
  Adobe mode, the closing delimiter: the second loop, with reverse iterators.  The argument
  counts the characters not yet visited, so the reverse iterator stands on position \<open>n\<close>
  when it is \<open>Suc n\<close>, and equals \<^verbatim>\<open>crend()\<close> when it is 0.  The loop yields
  \<^verbatim>\<open>encodedStringEnd\<close>, the \<^verbatim>\<open>base()\<close> of the iterator two steps on.
\<close>

fun Ascii85_find_end :: "string \<Rightarrow> nat \<Rightarrow> nat outcome" where
  "Ascii85_find_end s 0 = Returns (length s)"
| "Ascii85_find_end s (Suc n) =
    (if s ! n = CHR ''>'' then
       (if n = 0 then Undefined_Read
        else if s ! (n - 1) = CHR ''~'' \<and> n \<noteq> 1 then Returns (n - 1)
        else Throws (Ascii85_Error Ascii85_STRING_PARSE_ERROR))
     else if is_blank (s ! n) then
       (if n = 0 then Throws (Ascii85_Error Ascii85_STRING_PARSE_ERROR)
        else Ascii85_find_end s n)
     else Throws (Ascii85_Error Ascii85_STRING_PARSE_ERROR))"

text \<open>Both loops of \<^verbatim>\<open>if(adobeMode_)\<close>: the range of the main loop.\<close>

definition Ascii85_frame :: "string \<Rightarrow> bool \<Rightarrow> (nat \<times> nat) outcome" where
  "Ascii85_frame s adobeMode =
    (if adobeMode then
       (case Ascii85_find_begin s 0 of
          Returns encodedStringBegin \<Rightarrow>
            (case Ascii85_find_end s (length s) of
               Returns encodedStringEnd \<Rightarrow> Returns (encodedStringBegin, encodedStringEnd)
             | Throws e \<Rightarrow> Throws e
             | Terminated \<Rightarrow> Terminated
             | Undefined_Read \<Rightarrow> Undefined_Read)
        | Throws e \<Rightarrow> Throws e
        | Terminated \<Rightarrow> Terminated
        | Undefined_Read \<Rightarrow> Undefined_Read)
     else Returns (0, length s))"

subsection \<open>\<^verbatim>\<open>Ascii85::DecodeStringToString\<close>\<close>

text \<open>
  The main loop.  The case \<^verbatim>\<open>'z'\<close> is \<^verbatim>\<open>continue;\<close> followed by the comment
  \<^verbatim>\<open>// decodedString.append("\0\0\0\0");\<close>: nothing is appended.
\<close>

function Ascii85_string_loop :: "string \<Rightarrow> bool \<Rightarrow> nat \<Rightarrow> nat \<Rightarrow> string \<Rightarrow> string outcome" where
  "Ascii85_string_loop s foldSpaces encodedStringEnd iter decodedString =
    (if iter = encodedStringEnd then Returns decodedString
     else if length s \<le> iter then Undefined_Read
     else if s ! iter = CHR '' '' then
       Ascii85_string_loop s foldSpaces encodedStringEnd (iter + 1) decodedString
     else if s ! iter = CHR 0x0A then
       Ascii85_string_loop s foldSpaces encodedStringEnd (iter + 1) decodedString
     else if s ! iter = CHR ''y'' then
       (if foldSpaces then
          Ascii85_string_loop s foldSpaces encodedStringEnd (iter + 1) (decodedString @ ''    '')
        else Throws (Ascii85_Error Ascii85_STRING_PARSE_ERROR))
     else if s ! iter = CHR ''z'' then
       Ascii85_string_loop s foldSpaces encodedStringEnd (iter + 1) decodedString
     else
       (case Ascii85_decode_group s encodedStringEnd iter of
          Returns (iter', bytes) \<Rightarrow>
            Ascii85_string_loop s foldSpaces encodedStringEnd (iter' + 1)
              (decodedString @ map to_char bytes)
        | Throws e \<Rightarrow> Throws e
        | Terminated \<Rightarrow> Terminated
        | Undefined_Read \<Rightarrow> Undefined_Read))"
  by pat_completeness auto
termination
proof (relation "measure (\<lambda>(s, foldSpaces, encodedStringEnd, iter, decodedString). length s - iter)",
    goal_cases)
  case (6 s foldSpaces encodedStringEnd iter decodedString x1 iter' bytes)
  then have "Ascii85_decode_group s encodedStringEnd iter = Returns (iter', bytes)" by simp
  then have "iter \<le> iter'" by (rule Ascii85_decode_group_iter_mono)
  with 6 show ?case by simp
qed simp_all

declare Ascii85_string_loop.simps [simp del]

definition Ascii85_DecodeStringToString :: "string \<Rightarrow> bool \<Rightarrow> bool \<Rightarrow> string outcome" where
  "Ascii85_DecodeStringToString encodedString foldSpaces adobeMode =
    (case Ascii85_frame encodedString adobeMode of
       Returns (encodedStringBegin, encodedStringEnd) \<Rightarrow>
         Ascii85_string_loop encodedString foldSpaces encodedStringEnd encodedStringBegin []
     | Throws e \<Rightarrow> Throws e
     | Terminated \<Rightarrow> Terminated
     | Undefined_Read \<Rightarrow> Undefined_Read)"

subsection \<open>\<^verbatim>\<open>Ascii85::DecodeStringToByteBuffer\<close>\<close>

text \<open>
  The locals the lambda \<^verbatim>\<open>addToByteBuffer\<close> captures by reference, and the heap.
\<close>

record staging =
  decodedByteBuffer :: ByteBuffer
  byteBuffer :: ByteBuffer
  bufferIterator :: SizeType
  allocations :: heap

text \<open>
  \<^verbatim>\<open>addToByteBuffer\<close>: a byte goes into the 8192-byte chunk; a full chunk is appended to the
  result first.  An exception leaves the decoder, so only the state after a return matters.
\<close>

definition addToByteBuffer :: "byte \<Rightarrow> staging \<Rightarrow> staging outcome" where
  "addToByteBuffer byte st =
    (if bufferIterator st < 8192 then
       (case At_assign (bufferIterator st) byte (byteBuffer st) of
          (Returns u, chunk) \<Rightarrow>
            Returns (st\<lparr>byteBuffer := chunk, bufferIterator := bufferIterator st + 1\<rparr>)
        | (Throws e, chunk) \<Rightarrow> Throws e
        | (Terminated, chunk) \<Rightarrow> Terminated
        | (Undefined_Read, chunk) \<Rightarrow> Undefined_Read)
     else
       (case plus_assign (byteBuffer st) (decodedByteBuffer st) (allocations st) of
          (Returns u, decoded, h) \<Rightarrow>
            (case At_assign 0 byte (byteBuffer st) of
               (Returns u, chunk) \<Rightarrow>
                 Returns (st\<lparr>decodedByteBuffer := decoded, byteBuffer := chunk,
                            bufferIterator := 0 + 1, allocations := h\<rparr>)
             | (Throws e, chunk) \<Rightarrow> Throws e
             | (Terminated, chunk) \<Rightarrow> Terminated
             | (Undefined_Read, chunk) \<Rightarrow> Undefined_Read)
        | (Throws e, decoded, h) \<Rightarrow> Throws e
        | (Terminated, decoded, h) \<Rightarrow> Terminated
        | (Undefined_Read, decoded, h) \<Rightarrow> Undefined_Read))"

text \<open>Calls of \<^verbatim>\<open>addToByteBuffer\<close> one after the other.\<close>

fun addBytes :: "byte list \<Rightarrow> staging \<Rightarrow> staging outcome" where
  "addBytes [] st = Returns st"
| "addBytes (byte # bytes) st =
    (case addToByteBuffer byte st of
       Returns st' \<Rightarrow> addBytes bytes st'
     | Throws e \<Rightarrow> Throws e
     | Terminated \<Rightarrow> Terminated
     | Undefined_Read \<Rightarrow> Undefined_Read)"

text \<open>
  The main loop.  Here the case \<^verbatim>\<open>'z'\<close> calls \<^verbatim>\<open>addToByteBuffer('\0')\<close> four times, and the
  case \<^verbatim>\<open>'y'\<close> with \<^verbatim>\<open>foldSpaces_\<close> calls \<^verbatim>\<open>addToByteBuffer(' ')\<close> four times.
\<close>

function Ascii85_buffer_loop :: "string \<Rightarrow> bool \<Rightarrow> nat \<Rightarrow> nat \<Rightarrow> staging \<Rightarrow> staging outcome" where
  "Ascii85_buffer_loop s foldSpaces encodedStringEnd iter st =
    (if iter = encodedStringEnd then Returns st
     else if length s \<le> iter then Undefined_Read
     else if s ! iter = CHR '' '' then
       Ascii85_buffer_loop s foldSpaces encodedStringEnd (iter + 1) st
     else if s ! iter = CHR 0x0A then
       Ascii85_buffer_loop s foldSpaces encodedStringEnd (iter + 1) st
     else if s ! iter = CHR ''y'' then
       (if foldSpaces then
          (case addBytes [0x20, 0x20, 0x20, 0x20] st of
             Returns st' \<Rightarrow> Ascii85_buffer_loop s foldSpaces encodedStringEnd (iter + 1) st'
           | Throws e \<Rightarrow> Throws e
           | Terminated \<Rightarrow> Terminated
           | Undefined_Read \<Rightarrow> Undefined_Read)
        else Throws (Ascii85_Error Ascii85_STRING_PARSE_ERROR))
     else if s ! iter = CHR ''z'' then
       (case addBytes [0, 0, 0, 0] st of
          Returns st' \<Rightarrow> Ascii85_buffer_loop s foldSpaces encodedStringEnd (iter + 1) st'
        | Throws e \<Rightarrow> Throws e
        | Terminated \<Rightarrow> Terminated
        | Undefined_Read \<Rightarrow> Undefined_Read)
     else
       (case Ascii85_decode_group s encodedStringEnd iter of
          Returns (iter', bytes) \<Rightarrow>
            (case addBytes bytes st of
               Returns st' \<Rightarrow> Ascii85_buffer_loop s foldSpaces encodedStringEnd (iter' + 1) st'
             | Throws e \<Rightarrow> Throws e
             | Terminated \<Rightarrow> Terminated
             | Undefined_Read \<Rightarrow> Undefined_Read)
        | Throws e \<Rightarrow> Throws e
        | Terminated \<Rightarrow> Terminated
        | Undefined_Read \<Rightarrow> Undefined_Read))"
  by pat_completeness auto
termination
proof (relation "measure (\<lambda>(s, foldSpaces, encodedStringEnd, iter, st). length s - iter)",
    goal_cases)
  case (6 s foldSpaces encodedStringEnd iter st x1 iter' bytes st')
  then have "Ascii85_decode_group s encodedStringEnd iter = Returns (iter', bytes)" by simp
  then have "iter \<le> iter'" by (rule Ascii85_decode_group_iter_mono)
  with 6 show ?case by simp
qed simp_all

declare Ascii85_buffer_loop.simps [simp del]

text \<open>
  After the loop: \<^verbatim>\<open>if(bufferIterator > 0)\<close> the chunk is cut to the bytes in use and
  appended.
\<close>

definition Ascii85_flush :: "staging \<Rightarrow> ByteBuffer outcome" where
  "Ascii85_flush st =
    (if bufferIterator st > 0 then
       (case Resize (bufferIterator st) (byteBuffer st) (allocations st) of
          (Returns u, chunk, h) \<Rightarrow>
            (case plus_assign chunk (decodedByteBuffer st) h of
               (Returns u, decoded, h') \<Rightarrow> Returns decoded
             | (Throws e, decoded, h') \<Rightarrow> Throws e
             | (Terminated, decoded, h') \<Rightarrow> Terminated
             | (Undefined_Read, decoded, h') \<Rightarrow> Undefined_Read)
        | (Throws e, chunk, h) \<Rightarrow> Throws e
        | (Terminated, chunk, h) \<Rightarrow> Terminated
        | (Undefined_Read, chunk, h) \<Rightarrow> Undefined_Read)
     else Returns (decodedByteBuffer st))"

text \<open>
  The decoder.  The chunk \<^verbatim>\<open>ByteBuffer<ByteType> byteBuffer(8192)\<close> is constructed before
  anything is read.
\<close>

definition Ascii85_DecodeStringToByteBuffer ::
  "string \<Rightarrow> bool \<Rightarrow> bool \<Rightarrow> heap \<Rightarrow> ByteBuffer outcome" where
  "Ascii85_DecodeStringToByteBuffer encodedString foldSpaces adobeMode h =
    (case ByteBuffer_sized 8192 h of
       (Returns chunk, h') \<Rightarrow>
         (case Ascii85_frame encodedString adobeMode of
            Returns (encodedStringBegin, encodedStringEnd) \<Rightarrow>
              (case Ascii85_buffer_loop encodedString foldSpaces encodedStringEnd encodedStringBegin
                      \<lparr>decodedByteBuffer = ByteBuffer_default, byteBuffer = chunk,
                       bufferIterator = 0, allocations = h'\<rparr> of
                 Returns st \<Rightarrow> Ascii85_flush st
               | Throws e \<Rightarrow> Throws e
               | Terminated \<Rightarrow> Terminated
               | Undefined_Read \<Rightarrow> Undefined_Read)
          | Throws e \<Rightarrow> Throws e
          | Terminated \<Rightarrow> Terminated
          | Undefined_Read \<Rightarrow> Undefined_Read)
     | (Throws e, h') \<Rightarrow> Throws e
     | (Terminated, h') \<Rightarrow> Terminated
     | (Undefined_Read, h') \<Rightarrow> Undefined_Read)"

subsection \<open>The scenarios of the specification\<close>

text \<open>
  The Ascii85 rows of the specification's table of end-to-end scenarios, run through the
  encoders, and the first one back through the string decoder.
\<close>

lemma Ascii85_scenarios:
  "Ascii85_EncodeStringToString ''Man '' False False = Returns ''9jqo^''"
  "Ascii85_DecodeStringToString ''9jqo^'' False False = Returns ''Man ''"
  "Ascii85_EncodeByteBufferToString \<lparr>p_size = 4, p_buffer = Some [0, 0, 0, 0]\<rparr> False True =
    Returns ''<~z~>''"
  "Ascii85_EncodeStringToString ''    '' True False = Returns ''y''"
  "Ascii85_EncodeStringToString [] False True = Returns ''<~~>''"
  by code_simp+

subsection \<open>A short group of zero bytes\<close>

text \<open>
  C3.  The specification lets the encoder write \<^verbatim>\<open>'z'\<close> only for a full group of value 0; a
  ragged final group of one, two or three zero bytes is to be written as two, three or four
  digits \<^verbatim>\<open>'!'\<close>.  The encoders test \<^verbatim>\<open>bitset == 0\<close> alone, after the short group has been
  shifted up, so both write \<^verbatim>\<open>'z'\<close> for a single zero byte, and the same for two and for three
  zero bytes: the output is the one of four zero bytes.
\<close>

theorem Ascii85_encode_short_zero_group:
  "Ascii85_EncodeStringToString [CHR 0x00] False False = Returns ''z'' \<and>
   Ascii85_EncodeByteBufferToString \<lparr>p_size = 1, p_buffer = Some [0]\<rparr> False False =
     Returns ''z'' \<and>
   Ascii85_EncodeByteBufferToString \<lparr>p_size = 2, p_buffer = Some [0, 0]\<rparr> False False =
     Returns ''z'' \<and>
   Ascii85_EncodeByteBufferToString \<lparr>p_size = 3, p_buffer = Some [0, 0, 0]\<rparr> False False =
     Returns ''z'' \<and>
   Ascii85_EncodeByteBufferToString \<lparr>p_size = 4, p_buffer = Some [0, 0, 0, 0]\<rparr> False False =
     Returns ''z''"
  by code_simp

subsection \<open>The byte decoder on \<^verbatim>\<open>"z"\<close>\<close>

text \<open>
  \<^verbatim>\<open>DecodeStringToByteBuffer("z")\<close> when every allocation succeeds: the chunk of 8192 bytes
  takes four zero bytes, is cut to four bytes and appended to the empty result.
\<close>

lemma replicate_update_same: "(replicate n x)[i := x] = replicate n x"
  by (induction n arbitrary: i) (simp_all split: nat.split)

lemma ByteBuffer_sized_chunk:
  "ByteBuffer_sized 8192 [] =
    (Returns \<lparr>p_size = 8192, p_buffer = Some (replicate 8192 0)\<rparr>, [])"
  by (simp add: ByteBuffer_sized_def GetMaximumSize_def make_unique_def std_fill_def)

lemma addToByteBuffer_zero:
  assumes "i < 8192"
  shows "addToByteBuffer 0
      \<lparr>decodedByteBuffer = d,
       byteBuffer = \<lparr>p_size = 8192, p_buffer = Some (replicate 8192 0)\<rparr>,
       bufferIterator = i, allocations = h\<rparr> =
    Returns
      \<lparr>decodedByteBuffer = d,
       byteBuffer = \<lparr>p_size = 8192, p_buffer = Some (replicate 8192 0)\<rparr>,
       bufferIterator = i + 1, allocations = h\<rparr>"
  using assms
  by (simp add: addToByteBuffer_def At_assign_def bytes_of_def replicate_update_same)

lemma addBytes_zeros:
  "addBytes [0, 0, 0, 0]
      \<lparr>decodedByteBuffer = d,
       byteBuffer = \<lparr>p_size = 8192, p_buffer = Some (replicate 8192 0)\<rparr>,
       bufferIterator = 0, allocations = h\<rparr> =
    Returns
      \<lparr>decodedByteBuffer = d,
       byteBuffer = \<lparr>p_size = 8192, p_buffer = Some (replicate 8192 0)\<rparr>,
       bufferIterator = 4, allocations = h\<rparr>"
  by (simp add: addToByteBuffer_zero)

lemma Ascii85_frame_z: "Ascii85_frame ''z'' False = Returns (0, Suc 0)"
  by code_simp

lemma Ascii85_buffer_loop_end:
  "Ascii85_buffer_loop s foldSpaces iter iter st = Returns st"
  by (simp add: Ascii85_buffer_loop.simps)

lemma Ascii85_buffer_loop_z:
  "Ascii85_buffer_loop ''z'' False (Suc 0) 0
      \<lparr>decodedByteBuffer = d,
       byteBuffer = \<lparr>p_size = 8192, p_buffer = Some (replicate 8192 0)\<rparr>,
       bufferIterator = 0, allocations = h\<rparr> =
    Returns
      \<lparr>decodedByteBuffer = d,
       byteBuffer = \<lparr>p_size = 8192, p_buffer = Some (replicate 8192 0)\<rparr>,
       bufferIterator = 4, allocations = h\<rparr>"
  by (simp add: Ascii85_buffer_loop.simps [of _ _ _ 0] Ascii85_buffer_loop_end addBytes_zeros
      del: addBytes.simps)

lemma Ascii85_flush_four:
  "Ascii85_flush
      \<lparr>decodedByteBuffer = ByteBuffer_default,
       byteBuffer = \<lparr>p_size = 8192, p_buffer = Some (replicate 8192 0)\<rparr>,
       bufferIterator = 4, allocations = []\<rparr> =
    Returns \<lparr>p_size = 4, p_buffer = Some [0, 0, 0, 0]\<rparr>"
proof -
  have four: "replicate 4 (0 :: byte) = [0, 0, 0, 0]"
    by (simp add: eval_nat_numeral)
  have "Resize 4 \<lparr>p_size = 8192, p_buffer = Some (replicate 8192 0)\<rparr> [] =
      (Returns (), \<lparr>p_size = 4, p_buffer = Some (replicate 4 0)\<rparr>, [])"
    by (simp add: Resize_def Resize_fill_def GetMaximumSize_def make_unique_def std_copy_def
        bytes_of_def Let_def)
  moreover
  have "plus_assign \<lparr>p_size = 4, p_buffer = Some (replicate 4 0)\<rparr> ByteBuffer_default [] =
      (Returns (), \<lparr>p_size = 4, p_buffer = Some (replicate 4 0)\<rparr>, [])"
    by (simp add: plus_assign_def ByteBuffer_default_def make_unique_def std_copy_def bytes_of_def)
  ultimately show ?thesis
    by (simp add: Ascii85_flush_def four)
qed

lemma Ascii85_buffer_z:
  "Ascii85_DecodeStringToByteBuffer ''z'' False False [] =
    Returns \<lparr>p_size = 4, p_buffer = Some [0, 0, 0, 0]\<rparr>"
  by (simp add: Ascii85_DecodeStringToByteBuffer_def ByteBuffer_sized_chunk Ascii85_frame_z
      Ascii85_buffer_loop_z Ascii85_flush_four)

subsection \<open>\<^verbatim>\<open>'z'\<close> in the two decoders\<close>

text \<open>
  C2.  The specification has both decoders turn a \<^verbatim>\<open>'z'\<close> outside a group into four zero
  bytes.  \<^verbatim>\<open>DecodeStringToByteBuffer\<close> does.  \<^verbatim>\<open>DecodeStringToString\<close> has
  \<^verbatim>\<open>case 'z': continue;\<close> with the \<^verbatim>\<open>append\<close> in a comment, so a \<^verbatim>\<open>'z'\<close> contributes nothing:
  \<^verbatim>\<open>"z"\<close> decodes to the empty string, with and without the Adobe delimiters, and a \<^verbatim>\<open>'z'\<close>
  before a group leaves only the group's bytes.
\<close>

theorem Ascii85_string_decoder_drops_z:
  "Ascii85_DecodeStringToString ''z'' False False = Returns [] \<and>
   Ascii85_DecodeStringToString ''<~z~>'' False True = Returns [] \<and>
   Ascii85_DecodeStringToString ''z9jqo^'' False False = Returns ''Man '' \<and>
   Ascii85_DecodeStringToByteBuffer ''z'' False False [] =
     Returns \<lparr>p_size = 4, p_buffer = Some [0, 0, 0, 0]\<rparr>"
proof -
  have "Ascii85_DecodeStringToString ''z'' False False = Returns []"
    by code_simp
  moreover have "Ascii85_DecodeStringToString ''<~z~>'' False True = Returns []"
    by code_simp
  moreover have "Ascii85_DecodeStringToString ''z9jqo^'' False False = Returns ''Man ''"
    by code_simp
  ultimately show ?thesis
    using Ascii85_buffer_z by simp
qed

subsection \<open>Encoding and decoding one zero byte\<close>

text \<open>
  C1.  The round trip of the specification, decoding the encoding of a byte sequence with
  the same configuration, does not give the bytes back for Ascii85 and the one-byte buffer
  \<open>{0x00}\<close>: \<^verbatim>\<open>EncodeByteBufferToString\<close> returns \<^verbatim>\<open>"z"\<close>, and \<^verbatim>\<open>DecodeStringToByteBuffer\<close>
  returns four zero bytes for it.
\<close>

theorem Ascii85_round_trip_zero_byte:
  "Ascii85_EncodeByteBufferToString \<lparr>p_size = 1, p_buffer = Some [0]\<rparr> False False =
     Returns ''z'' \<and>
   Ascii85_DecodeStringToByteBuffer ''z'' False False [] =
     Returns \<lparr>p_size = 4, p_buffer = Some [0, 0, 0, 0]\<rparr> \<and>
   \<lparr>p_size = 4, p_buffer = Some [0, 0, 0, 0]\<rparr> \<noteq> \<lparr>p_size = 1, p_buffer = Some [0 :: byte]\<rparr>"
proof -
  have "Ascii85_EncodeByteBufferToString \<lparr>p_size = 1, p_buffer = Some [0]\<rparr> False False =
      Returns ''z''"
    by code_simp
  then show ?thesis
    using Ascii85_buffer_z by simp
qed

end
